theory Spec2Isabelle
  imports Main
begin

section \<open>Syntax-tree utilities of the language service (src/services/utilities.ts)\<close>

text \<open>
  The file \<^verbatim>\<open>utilities.ts\<close> maps a text offset to the token, node or list slot it
  belongs to, over a syntax tree that the parser has already built. The functions are
  embedded one by one, with the loops written as recursion on the child index and every
  way the JavaScript can throw written as a value of \<open>error\<close>.
\<close>

subsection \<open>Data model\<close>

text \<open>
  The enumeration \<^verbatim>\<open>SyntaxKind\<close> is declared outside the file. The functions only
  compare a node's kind with eight of its members, so the numeric values of those members
  are a parameter of every function that reads them.
\<close>

record SyntaxKindTable =
  FirstToken :: int
  LastToken :: int
  EndOfFileToken :: int
  OmittedExpression :: int
  Missing :: int
  SyntaxList :: int
  ExpressionStatement :: int
  SourceFile :: int

text \<open>
  Modelled from the spec: the interface \<^verbatim>\<open>Node\<close> and its accessor methods, which are
  declared outside the file. A node carries its kind, its position ranges, its ordered
  children and, for an expression statement, its expression: \<open>nid\<close> stands for the
  identity of the JavaScript object (what \<^verbatim>\<open>===\<close> compares), \<open>pos\<close> is the full start
  (leading trivia included, also read by \<^verbatim>\<open>getFullStart()\<close>), \<open>getStart\<close> the offset of
  the first content that is not trivia, \<open>getEnd\<close> the field \<^verbatim>\<open>end\<close>, \<open>getChildren\<close>
  the ordered children (also read by \<^verbatim>\<open>getChildCount()\<close> and \<^verbatim>\<open>getChildAt(i)\<close>) and
  \<open>expression\<close> the field of that name, absent on other kinds of node.
\<close>

datatype Node = Node (nid: nat) (kind: int) (pos: int) (getStart: int) (getEnd: int)
  (getChildren: "Node list") (expression: "Node option")

abbreviation getFullStart :: "Node \<Rightarrow> int" where
  "getFullStart n \<equiv> pos n"

abbreviation getChildCount :: "Node \<Rightarrow> nat" where
  "getChildCount n \<equiv> length (getChildren n)"

abbreviation getChildAt :: "Node \<Rightarrow> nat \<Rightarrow> Node" where
  "getChildAt n i \<equiv> getChildren n ! i"

text \<open>
  Modelled from the spec: \<^verbatim>\<open>Debug.assert\<close>, declared outside the file, throws when its
  condition is false (the precondition violation of the spec); that is the error
  \<open>AssertionFailure\<close>. \<open>TypeError\<close> is what JavaScript throws when a property of
  \<^verbatim>\<open>undefined\<close> is read.
\<close>

datatype error = TypeError | AssertionFailure

record ListItemInfo =
  listItemIndex :: int
  list' :: Node

subsection \<open>Token tests\<close>

definition isToken :: "SyntaxKindTable \<Rightarrow> Node \<Rightarrow> bool" where
  "isToken K n = (kind n \<ge> FirstToken K \<and> kind n \<le> LastToken K)"

fun nodeHasTokens :: "SyntaxKindTable \<Rightarrow> Node \<Rightarrow> error + bool" where
  "nodeHasTokens K (Node i k p s e cs ex) =
     (if k = ExpressionStatement K then
        (case ex of None \<Rightarrow> Inl TypeError | Some x \<Rightarrow> nodeHasTokens K x)
      else if k = EndOfFileToken K \<or> k = OmittedExpression K \<or> k = Missing K then Inr False
      else Inr (k \<noteq> SyntaxList K \<or> length cs \<noteq> 0))"

subsection \<open>List navigation\<close>

text \<open>
  Modelled from the spec: the helper \<^verbatim>\<open>forEach\<close> of the compiler core, which is not
  part of the file. It scans the array left to right and returns the first result of
  the callback that is not \<^verbatim>\<open>undefined\<close>, or \<^verbatim>\<open>undefined\<close> when there is none.
\<close>

fun forEach :: "'a list \<Rightarrow> ('a \<Rightarrow> 'b option) \<Rightarrow> 'b option" where
  "forEach [] callback = None"
| "forEach (x # xs) callback =
     (case callback x of Some r \<Rightarrow> Some r | None \<Rightarrow> forEach xs callback)"

text \<open>
  Modelled from the spec: the helper \<^verbatim>\<open>indexOf\<close> of the compiler core, which is not
  part of the file. It returns the index of the first element that is the same object
  as the value, or \<open>-1\<close>.
\<close>

fun indexOfFrom :: "Node list \<Rightarrow> Node \<Rightarrow> nat \<Rightarrow> int" where
  "indexOfFrom [] v i = -1"
| "indexOfFrom (x # xs) v i = (if nid x = nid v then int i else indexOfFrom xs v (Suc i))"

definition indexOf :: "Node list \<Rightarrow> Node \<Rightarrow> int" where
  "indexOf array v = indexOfFrom array v 0"

text \<open>
  The field \<^verbatim>\<open>parent\<close> points from a node to the node that encloses it and is not part
  of the children sequence; it is a lookup \<open>parent\<close> from a node to its parent, if any.
\<close>

definition findContainingList ::
  "SyntaxKindTable \<Rightarrow> (Node \<Rightarrow> Node option) \<Rightarrow> Node \<Rightarrow> error + Node option" where
  "findContainingList K parent node =
     (case parent node of
        None \<Rightarrow> Inl TypeError
      | Some p \<Rightarrow>
          Inr (forEach (getChildren p)
                 (\<lambda>c. if kind c = SyntaxList K \<and> pos c \<le> pos node \<and> getEnd c \<ge> getEnd node
                      then Some c else None)))"

definition findListItemInfo ::
  "SyntaxKindTable \<Rightarrow> (Node \<Rightarrow> Node option) \<Rightarrow> Node \<Rightarrow> error + ListItemInfo" where
  "findListItemInfo K parent node =
     (case findContainingList K parent node of
        Inl e \<Rightarrow> Inl e
      | Inr None \<Rightarrow> Inl TypeError
      | Inr (Some syntaxList) \<Rightarrow>
          (let children = getChildren syntaxList;
               index = indexOf children node
           in Inr \<lparr> listItemIndex = index, list' = syntaxList \<rparr>))"

function findListItemIndex_loop :: "Node list \<Rightarrow> int \<Rightarrow> nat \<Rightarrow> int" where
  "findListItemIndex_loop children position i =
     (if i < length children then
        (if pos (children ! i) \<le> position \<and> getEnd (children ! i) > position then int i
         else findListItemIndex_loop children position (i + 1))
      else -1)"
  by pat_completeness auto
termination
  by (relation "measure (\<lambda>(children, position, i). length children - i)") auto

definition findListItemIndexContainingPosition ::
  "SyntaxKindTable \<Rightarrow> Node \<Rightarrow> int \<Rightarrow> error + int" where
  "findListItemIndexContainingPosition K list position =
     (if kind list \<noteq> SyntaxList K then Inl AssertionFailure
      else Inr (findListItemIndex_loop (getChildren list) position 0))"

subsection \<open>Position resolution\<close>

lemma size_child: "c \<in> set (getChildren n) \<Longrightarrow> size c < size n"
proof (cases n)
  case (Node i k p s e cs ex)
  assume "c \<in> set (getChildren n)"
  with Node have "c \<in> set cs" by simp
  then have "size c \<le> size_list size cs" by (induction cs) auto
  with Node show ?thesis by simp
qed

lemma size_nth_child: "i < length (getChildren n) \<Longrightarrow> size (getChildren n ! i) < size n"
  by (rule size_child) simp

text \<open>
  The labelled loops of \<^verbatim>\<open>getTokenAtPosition\<close>: \<open>i\<close> is the index of the inner loop,
  and \<^verbatim>\<open>continue outer\<close> restarts it at \<open>0\<close> on the child.
\<close>

function getTokenAtPosition_loop :: "Node \<Rightarrow> int \<Rightarrow> nat \<Rightarrow> Node" where
  "getTokenAtPosition_loop current position i =
     (if i < getChildCount current then
        (let child = getChildAt current i in
         if getFullStart child \<le> position \<and> position < getEnd child
         then getTokenAtPosition_loop child position 0
         else getTokenAtPosition_loop current position (i + 1))
      else current)"
  by pat_completeness auto
termination
  by (relation "measures [\<lambda>(current, position, i). size current,
                          \<lambda>(current, position, i). getChildCount current - i]")
     (auto dest: size_nth_child)

definition getTokenAtPosition :: "Node \<Rightarrow> int \<Rightarrow> Node" where
  "getTokenAtPosition sourceFile position = getTokenAtPosition_loop sourceFile position 0"

function getNodeAtPosition_loop :: "Node \<Rightarrow> int \<Rightarrow> nat \<Rightarrow> Node" where
  "getNodeAtPosition_loop current position i =
     (if i < getChildCount current then
        (let child = getChildAt current i in
         if getStart child \<le> position \<and> position < getEnd child
         then getNodeAtPosition_loop child position 0
         else getNodeAtPosition_loop current position (i + 1))
      else current)"
  by pat_completeness auto
termination
  by (relation "measures [\<lambda>(current, position, i). size current,
                          \<lambda>(current, position, i). getChildCount current - i]")
     (auto dest: size_nth_child)

definition getNodeAtPosition :: "Node \<Rightarrow> int \<Rightarrow> Node" where
  "getNodeAtPosition sourceFile position = getNodeAtPosition_loop sourceFile position 0"

subsection \<open>Token boundary search\<close>

function findNextToken_find :: "SyntaxKindTable \<Rightarrow> Node \<Rightarrow> Node \<Rightarrow> error + Node option"
  and findNextToken_loop :: "SyntaxKindTable \<Rightarrow> Node \<Rightarrow> Node \<Rightarrow> nat \<Rightarrow> error + Node option" where
  "findNextToken_find K previousToken n =
     (if isToken K n \<and> pos n = getEnd previousToken then Inr (Some n)
      else findNextToken_loop K previousToken n 0)"
| "findNextToken_loop K previousToken n i =
     (let children = getChildren n in
      if i < length children then
        (let child = children ! i;
             shouldDiveInChildNode =
               ((pos child \<le> pos previousToken \<and> getEnd child > getEnd previousToken) \<or>
                pos child = getEnd previousToken)
         in if shouldDiveInChildNode then
              (case nodeHasTokens K child of
                 Inl e \<Rightarrow> Inl e
               | Inr True \<Rightarrow> findNextToken_find K previousToken child
               | Inr False \<Rightarrow> findNextToken_loop K previousToken n (i + 1))
            else findNextToken_loop K previousToken n (i + 1))
      else Inr None)"
  by pat_completeness auto
termination
  by (relation "measures [\<lambda>x. case x of Inl (K, t, n) \<Rightarrow> 2 * size n + 1
                                         | Inr (K, t, n, i) \<Rightarrow> 2 * size n,
                          \<lambda>x. case x of Inl (K, t, n) \<Rightarrow> 0
                                         | Inr (K, t, n, i) \<Rightarrow> length (getChildren n) - i]")
     (auto dest: size_nth_child)

definition findNextToken :: "SyntaxKindTable \<Rightarrow> Node \<Rightarrow> Node \<Rightarrow> error + Node option" where
  "findNextToken K previousToken parent = findNextToken_find K previousToken parent"

text \<open>
  \<^verbatim>\<open>findRightmostChildNodeWithTokens\<close> counts \<open>i\<close> down from
  \<^verbatim>\<open>exclusiveStartPosition - 1\<close> to \<open>0\<close>; the argument here is the exclusive bound.
  An index past the array reads \<^verbatim>\<open>undefined\<close>, whose kind cannot be read.
\<close>

fun findRightmostChildNodeWithTokens ::
  "SyntaxKindTable \<Rightarrow> Node list \<Rightarrow> nat \<Rightarrow> error + Node option" where
  "findRightmostChildNodeWithTokens K children 0 = Inr None"
| "findRightmostChildNodeWithTokens K children (Suc i) =
     (if i < length children then
        (case nodeHasTokens K (children ! i) of
           Inl e \<Rightarrow> Inl e
         | Inr True \<Rightarrow> Inr (Some (children ! i))
         | Inr False \<Rightarrow> findRightmostChildNodeWithTokens K children i)
      else Inl TypeError)"

lemma findRightmostChildNodeWithTokens_mem:
  "findRightmostChildNodeWithTokens K cs i = Inr (Some c) \<Longrightarrow> c \<in> set cs"
  by (induction i) (auto split: if_splits sum.splits bool.splits)

function findRightmostToken :: "SyntaxKindTable \<Rightarrow> Node \<Rightarrow> error + Node option" where
  "findRightmostToken K n =
     (if isToken K n then Inr (Some n)
      else (let children = getChildren n in
            case findRightmostChildNodeWithTokens K children (length children) of
              Inl e \<Rightarrow> Inl e
            | Inr None \<Rightarrow> Inr None
            | Inr (Some candidate) \<Rightarrow> findRightmostToken K candidate))"
  by pat_completeness auto
termination
  by (relation "measure (\<lambda>(K, n). size n)")
     (auto dest!: findRightmostChildNodeWithTokens_mem size_child)

function findPrecedingToken_find :: "SyntaxKindTable \<Rightarrow> int \<Rightarrow> Node \<Rightarrow> error + Node option"
  and findPrecedingToken_loop :: "SyntaxKindTable \<Rightarrow> int \<Rightarrow> Node \<Rightarrow> nat \<Rightarrow> error + Node option" where
  "findPrecedingToken_find K position n =
     (if isToken K n then Inr (Some n) else findPrecedingToken_loop K position n 0)"
| "findPrecedingToken_loop K position n i =
     (let children = getChildren n in
      if i < length children then
        (let child = children ! i in
         case nodeHasTokens K child of
           Inl e \<Rightarrow> Inl e
         | Inr False \<Rightarrow> findPrecedingToken_loop K position n (i + 1)
         | Inr True \<Rightarrow>
             if position < getEnd child then
               (if getStart child \<ge> position then
                  (case findRightmostChildNodeWithTokens K children i of
                     Inl e \<Rightarrow> Inl e
                   | Inr None \<Rightarrow> Inr None
                   | Inr (Some candidate) \<Rightarrow> findRightmostToken K candidate)
                else findPrecedingToken_find K position child)
             else findPrecedingToken_loop K position n (i + 1))
      else if kind n \<noteq> SourceFile K then Inl AssertionFailure
      else if length children \<noteq> 0 then
        (case findRightmostChildNodeWithTokens K children (length children) of
           Inl e \<Rightarrow> Inl e
         | Inr None \<Rightarrow> Inr None
         | Inr (Some candidate) \<Rightarrow> findRightmostToken K candidate)
      else Inr None)"
  by pat_completeness auto
termination
  by (relation "measures [\<lambda>x. case x of Inl (K, p, n) \<Rightarrow> 2 * size n + 1
                                         | Inr (K, p, n, i) \<Rightarrow> 2 * size n,
                          \<lambda>x. case x of Inl (K, p, n) \<Rightarrow> 0
                                         | Inr (K, p, n, i) \<Rightarrow> length (getChildren n) - i]")
     (auto dest: size_nth_child)

definition findPrecedingToken :: "SyntaxKindTable \<Rightarrow> int \<Rightarrow> Node \<Rightarrow> error + Node option" where
  "findPrecedingToken K position sourceFile = findPrecedingToken_find K position sourceFile"

definition findTokenOnLeftOfPosition :: "SyntaxKindTable \<Rightarrow> Node \<Rightarrow> int \<Rightarrow> error + Node option" where
  "findTokenOnLeftOfPosition K file position =
     (let tokenAtPosition = getTokenAtPosition file position in
      if isToken K tokenAtPosition \<and> position > getStart tokenAtPosition
         \<and> position < getEnd tokenAtPosition
      then Inr (Some tokenAtPosition)
      else findPrecedingToken K position file)"

declare getTokenAtPosition_loop.simps [simp del]
declare getNodeAtPosition_loop.simps [simp del]
declare findListItemIndex_loop.simps [simp del]
declare findNextToken_find.simps [simp del]
declare findNextToken_loop.simps [simp del]
declare findRightmostToken.simps [simp del]
declare findPrecedingToken_find.simps [simp del]
declare findPrecedingToken_loop.simps [simp del]

section \<open>Vocabulary of the specification\<close>

subsection \<open>Spans and well-formed trees\<close>

text \<open>The full span \<open>[fullStart, end)\<close> of a node contains an offset.\<close>

definition fullSpanContains :: "Node \<Rightarrow> int \<Rightarrow> bool" where
  "fullSpanContains c p = (pos c \<le> p \<and> p < getEnd c)"

text \<open>The rendered span \<open>[start, end)\<close>, leading trivia excluded, contains an offset.\<close>

definition textSpanContains :: "Node \<Rightarrow> int \<Rightarrow> bool" where
  "textSpanContains c p = (getStart c \<le> p \<and> p < getEnd c)"

text \<open>
  Children are position-sorted and do not overlap: each child ends at or before the
  full start of the next one.
\<close>

fun sortedSpans :: "Node list \<Rightarrow> bool" where
  "sortedSpans [] = True"
| "sortedSpans [c] = True"
| "sortedSpans (c # d # cs) = (getEnd c \<le> pos d \<and> sortedSpans (d # cs))"

text \<open>
  The invariants of a well-formed tree: the start of a node is not before its full
  start, no span is negative, the children are sorted and lie inside the range of
  their parent, and a token has no children.
\<close>

fun wellFormed :: "SyntaxKindTable \<Rightarrow> Node \<Rightarrow> bool" where
  "wellFormed K (Node i k p s e cs ex) =
     (p \<le> s \<and> p \<le> e \<and> sortedSpans cs \<and>
      (\<forall>c \<in> set cs. p \<le> pos c \<and> getEnd c \<le> e \<and> wellFormed K c) \<and>
      (isToken K (Node i k p s e cs ex) \<longrightarrow> cs = []))"

text \<open>The nodes of a tree: the node itself and the nodes of its children, in document order.\<close>

fun nodes :: "Node \<Rightarrow> Node list" where
  "nodes (Node i k p s e cs ex) = Node i k p s e cs ex # concat (map nodes cs)"

text \<open>
  The start of a node is the offset of its first content that is not trivia, so it is
  not after the start of any of its children: rendered spans are nested like full spans.
\<close>

fun startsNested :: "Node \<Rightarrow> bool" where
  "startsNested (Node i k p s e cs ex) = (\<forall>c \<in> set cs. s \<le> getStart c \<and> startsNested c)"

text \<open>
  Every character, trivia included, is covered by the full span of a token: the
  children of a node tile its full span without gaps, and a leaf of non-zero width is
  a token.
\<close>

fun abuttingSpans :: "Node list \<Rightarrow> bool" where
  "abuttingSpans [] = True"
| "abuttingSpans [c] = True"
| "abuttingSpans (c # d # cs) = (getEnd c = pos d \<and> abuttingSpans (d # cs))"

fun fullyCovered :: "SyntaxKindTable \<Rightarrow> Node \<Rightarrow> bool" where
  "fullyCovered K (Node i k p s e cs ex) =
     (if cs = [] then (p < e \<longrightarrow> isToken K (Node i k p s e cs ex))
      else pos (hd cs) = p \<and> getEnd (last cs) = e \<and> abuttingSpans cs \<and>
           (\<forall>c \<in> set cs. fullyCovered K c))"

text \<open>The test of the callback in \<^verbatim>\<open>findContainingList\<close>: a list group that covers the node.\<close>

definition isListCovering :: "SyntaxKindTable \<Rightarrow> Node \<Rightarrow> Node \<Rightarrow> bool" where
  "isListCovering K node c =
     (kind c = SyntaxList K \<and> pos c \<le> pos node \<and> getEnd c \<ge> getEnd node)"

subsection \<open>Tokens that the searches can reach\<close>

text \<open>A node bears tokens when \<^verbatim>\<open>nodeHasTokens\<close> returns true for it.\<close>

definition tokenBearing :: "SyntaxKindTable \<Rightarrow> Node \<Rightarrow> bool" where
  "tokenBearing K n = (nodeHasTokens K n = Inr True)"

text \<open>
  \<^verbatim>\<open>nodeHasTokens\<close> returns a value for the node: on the way through nested expression
  statements every \<^verbatim>\<open>expression\<close> field is present.
\<close>

definition hasTokensDefined :: "SyntaxKindTable \<Rightarrow> Node \<Rightarrow> bool" where
  "hasTokensDefined K n = (\<exists>b. nodeHasTokens K n = Inr b)"

text \<open>
  The tokens of a node that both searches can reach, in document order: the node itself
  when it is a token, and otherwise the reachable tokens of its token-bearing children.
  Tokens below a child that bears no tokens are left out.
\<close>

fun tokensOf :: "SyntaxKindTable \<Rightarrow> Node \<Rightarrow> Node list" where
  "tokensOf K (Node i k p s e cs ex) =
     (if isToken K (Node i k p s e cs ex) then [Node i k p s e cs ex]
      else concat (map (tokensOf K) (filter (tokenBearing K) cs)))"

text \<open>
  The nodes that the searches enter, in document order: the start node, and below every
  entered node those of its children for which \<^verbatim>\<open>nodeHasTokens\<close> is true. A child that
  bears no tokens is left out together with everything below it.
\<close>

fun enteredNodes :: "SyntaxKindTable \<Rightarrow> Node \<Rightarrow> Node list" where
  "enteredNodes K (Node i k p s e cs ex) =
     Node i k p s e cs ex # concat (map (enteredNodes K) (filter (tokenBearing K) cs))"

text \<open>The condition \<^verbatim>\<open>shouldDiveInChildNode\<close> of \<^verbatim>\<open>findNextToken\<close>.\<close>

definition shouldDiveInChildNode :: "Node \<Rightarrow> Node \<Rightarrow> bool" where
  "shouldDiveInChildNode previousToken child =
     ((pos child \<le> pos previousToken \<and> getEnd child > getEnd previousToken) \<or>
      pos child = getEnd previousToken)"

text \<open>
  The expression \<^verbatim>\<open>candidate && findRightmostToken(candidate)\<close> of
  \<^verbatim>\<open>findPrecedingToken\<close>, for the candidate found below index \<open>i\<close>.
\<close>

definition rightmostTokenBefore ::
  "SyntaxKindTable \<Rightarrow> Node list \<Rightarrow> nat \<Rightarrow> error + Node option" where
  "rightmostTokenBefore K children i =
     (case findRightmostChildNodeWithTokens K children i of
        Inl e \<Rightarrow> Inl e
      | Inr None \<Rightarrow> Inr None
      | Inr (Some candidate) \<Rightarrow> findRightmostToken K candidate)"

subsection \<open>Trees in which spans follow the tokens\<close>

text \<open>Nodes in order of their text: each ends at or before the start of the next.\<close>

fun startSorted :: "Node list \<Rightarrow> bool" where
  "startSorted [] = True"
| "startSorted [c] = True"
| "startSorted (c # d # cs) = (getEnd c \<le> getStart d \<and> startSorted (d # cs))"

text \<open>
  Trivia is attached in front of the token that follows it and never after the content
  of a node. So a token has a non-empty text, and any other token-bearing node starts
  where its first token-bearing child starts and ends where its last token-bearing child
  ends; it has such a child, its token-bearing children are in order and have the
  same property, and \<^verbatim>\<open>nodeHasTokens\<close> has a value for each of its children.
\<close>

fun tokensTight :: "SyntaxKindTable \<Rightarrow> Node \<Rightarrow> bool" where
  "tokensTight K (Node i k p s e cs ex) =
     (if isToken K (Node i k p s e cs ex) then s < e
      else (\<forall>c \<in> set cs. hasTokensDefined K c) \<and>
           filter (tokenBearing K) cs \<noteq> [] \<and>
           getStart (hd (filter (tokenBearing K) cs)) = s \<and>
           getEnd (last (filter (tokenBearing K) cs)) = e \<and>
           startSorted (filter (tokenBearing K) cs) \<and>
           (\<forall>c \<in> set (filter (tokenBearing K) cs). tokensTight K c))"

text \<open>
  A source file for the preceding-token search: a node of kind \<open>SourceFile\<close>, not a
  token, whose token-bearing children are in order and have the property above. The
  span of the file itself is free: it may be empty, and trailing trivia at its end
  belongs to the end-of-file token.
\<close>

definition searchableFile :: "SyntaxKindTable \<Rightarrow> Node \<Rightarrow> bool" where
  "searchableFile K sourceFile =
     (kind sourceFile = SourceFile K \<and> \<not> isToken K sourceFile \<and>
      (\<forall>c \<in> set (getChildren sourceFile). hasTokensDefined K c) \<and>
      startSorted (filter (tokenBearing K) (getChildren sourceFile)) \<and>
      (\<forall>c \<in> set (filter (tokenBearing K) (getChildren sourceFile)). tokensTight K c))"

text \<open>
  The preceding-token search on a flat list of tokens in document order, \<open>prev\<close> being
  the token before the list: at the first token that ends after the offset, that token
  if its text starts before the offset, and the token before it otherwise; the last
  token when every token ends at or before the offset.
\<close>

fun precedingIn :: "int \<Rightarrow> Node list \<Rightarrow> Node option \<Rightarrow> Node option" where
  "precedingIn p [] prev = prev"
| "precedingIn p (t # ts) prev =
     (if p < getEnd t then (if getStart t \<ge> p then prev else Some t)
      else precedingIn p ts (Some t))"

text \<open>Tokens with non-empty text, each ending at or before the start of the next.\<close>

fun tokenChain :: "Node list \<Rightarrow> bool" where
  "tokenChain [] = True"
| "tokenChain [t] = (getStart t < getEnd t)"
| "tokenChain (t # u # ts) =
     (getStart t < getEnd t \<and> getEnd t \<le> getStart u \<and> tokenChain (u # ts))"

definition lastOption :: "'a list \<Rightarrow> 'a option" where
  "lastOption xs = (if xs = [] then None else Some (last xs))"

text \<open>The reachable tokens of a sequence of children.\<close>

definition reachableTokens :: "SyntaxKindTable \<Rightarrow> Node list \<Rightarrow> Node list" where
  "reachableTokens K cs = concat (map (tokensOf K) (filter (tokenBearing K) cs))"

text \<open>
  The reachable tokens of a node form a chain that starts at the start of the node and
  ends at its end.
\<close>

definition goodTokens :: "SyntaxKindTable \<Rightarrow> Node \<Rightarrow> bool" where
  "goodTokens K c =
     (tokensOf K c \<noteq> [] \<and> getStart (hd (tokensOf K c)) = getStart c \<and>
      getEnd (last (tokensOf K c)) = getEnd c \<and> tokenChain (tokensOf K c))"

subsection \<open>Sample trees\<close>

text \<open>
  A kind table for the examples. Token kinds are \<open>1\<close> to \<open>100\<close>, the end-of-file
  token being the first of them; the other kinds used below are \<open>6\<close> numeric literal,
  \<open>11\<close> and \<open>12\<close> parentheses, \<open>13\<close> and \<open>14\<close> braces, \<open>15\<close> dot, \<open>17\<close> semicolon,
  \<open>18\<close> comma, \<open>19\<close> and \<open>20\<close> brackets, \<open>59\<close> identifier, \<open>131\<close> property access,
  \<open>132\<close> array literal, \<open>133\<close> call expression and \<open>160\<close> block.
\<close>

definition sampleKinds :: SyntaxKindTable where
  "sampleKinds = \<lparr> FirstToken = 1, LastToken = 100, EndOfFileToken = 1,
     OmittedExpression = 130, Missing = 101, SyntaxList = 190,
     ExpressionStatement = 150, SourceFile = 180 \<rparr>"

text \<open>
  The tree of the document \<^verbatim>\<open>foo.bar(1, 2)\<close>, thirteen characters long; the blank
  before \<^verbatim>\<open>2\<close> is the leading trivia of that token.
\<close>

definition tFoo :: Node where "tFoo = Node 5 59 0 0 3 [] None"
definition tDot :: Node where "tDot = Node 6 15 3 3 4 [] None"
definition tBar :: Node where "tBar = Node 7 59 4 4 7 [] None"
definition propAccess :: Node where "propAccess = Node 4 131 0 0 7 [tFoo, tDot, tBar] None"
definition tOpen :: Node where "tOpen = Node 8 11 7 7 8 [] None"
definition tOne :: Node where "tOne = Node 10 6 8 8 9 [] None"
definition tComma :: Node where "tComma = Node 11 18 9 9 10 [] None"
definition tTwo :: Node where "tTwo = Node 12 6 10 11 12 [] None"
definition argList :: Node where "argList = Node 9 190 8 8 12 [tOne, tComma, tTwo] None"
definition tClose :: Node where "tClose = Node 13 12 12 12 13 [] None"
definition callExpr :: Node where
  "callExpr = Node 3 133 0 0 13 [propAccess, tOpen, argList, tClose] None"
definition exprStmt :: Node where "exprStmt = Node 2 150 0 0 13 [callExpr] (Some callExpr)"
definition stmtList :: Node where "stmtList = Node 1 190 0 0 13 [exprStmt] None"
definition eofTok :: Node where "eofTok = Node 14 1 13 13 13 [] None"
definition sampleFile :: Node where "sampleFile = Node 0 180 0 0 13 [stmtList, eofTok] None"

text \<open>The parent of each node of the sample tree; a list element points past its list.\<close>

definition sampleParent :: "Node \<Rightarrow> Node option" where
  "sampleParent n =
     (if nid n \<in> {4, 8, 9, 10, 11, 12, 13} then Some callExpr
      else if nid n \<in> {5, 6, 7} then Some propAccess
      else if nid n = 3 then Some exprStmt
      else if nid n \<in> {1, 2, 14} then Some sampleFile
      else None)"

lemmas sample_defs = sampleKinds_def tFoo_def tDot_def tBar_def propAccess_def tOpen_def
  tOne_def tComma_def tTwo_def argList_def tClose_def callExpr_def exprStmt_def
  stmtList_def eofTok_def sampleFile_def sampleParent_def

text \<open>
  A block \<^verbatim>\<open>{;}\<close> whose statement list holds an expression statement with a missing
  expression and a semicolon.
\<close>

definition bOpen :: Node where "bOpen = Node 1 13 0 0 1 [] None"
definition bMissing :: Node where "bMissing = Node 4 101 1 1 1 [] None"
definition bSemi :: Node where "bSemi = Node 5 17 1 1 2 [] None"
definition bStmt :: Node where "bStmt = Node 3 150 1 1 2 [bMissing, bSemi] (Some bMissing)"
definition bList :: Node where "bList = Node 2 190 1 1 2 [bStmt] None"
definition bClose :: Node where "bClose = Node 6 14 2 2 3 [] None"
definition block :: Node where "block = Node 0 160 0 0 3 [bOpen, bList, bClose] None"

lemmas block_defs = sampleKinds_def bOpen_def bMissing_def bSemi_def bStmt_def bList_def
  bClose_def block_def

text \<open>A list whose only element has two characters of leading trivia.\<close>

definition paddedItem :: Node where "paddedItem = Node 2 59 0 2 5 [] None"
definition paddedList :: Node where "paddedList = Node 1 190 0 2 5 [paddedItem] None"

text \<open>
  Two adjacent list groups under one node; the second one starts with a zero-width
  placeholder for a missing element.
\<close>

definition firstItem :: Node where "firstItem = Node 2 59 0 0 5 [] None"
definition firstList :: Node where "firstList = Node 1 190 0 0 5 [firstItem] None"
definition missingItem :: Node where "missingItem = Node 4 101 5 5 5 [] None"
definition secondItem :: Node where "secondItem = Node 5 59 5 5 8 [] None"
definition secondList :: Node where "secondList = Node 3 190 5 5 8 [missingItem, secondItem] None"
definition twoLists :: Node where "twoLists = Node 0 133 0 0 8 [firstList, secondList] None"

text \<open>
  The tree of the document \<^verbatim>\<open>x y\<close> with three expression statements: \<^verbatim>\<open>x\<close>, a
  zero-width statement whose expression is missing, and \<^verbatim>\<open>y\<close>, whose leading trivia is
  the blank.
\<close>

definition wX :: Node where "wX = Node 3 59 0 0 1 [] None"
definition wStmtX :: Node where "wStmtX = Node 2 150 0 0 1 [wX] (Some wX)"
definition wMissing :: Node where "wMissing = Node 5 101 1 1 1 [] None"
definition wStmtM :: Node where "wStmtM = Node 4 150 1 1 1 [wMissing] (Some wMissing)"
definition wY :: Node where "wY = Node 7 59 1 2 3 [] None"
definition wStmtY :: Node where "wStmtY = Node 6 150 1 2 3 [wY] (Some wY)"
definition wList :: Node where "wList = Node 1 190 0 0 3 [wStmtX, wStmtM, wStmtY] None"
definition wEof :: Node where "wEof = Node 8 1 3 3 3 [] None"
definition wFile :: Node where "wFile = Node 0 180 0 0 3 [wList, wEof] None"

lemmas w_defs = sampleKinds_def wX_def wStmtX_def wMissing_def wStmtM_def wY_def wStmtY_def
  wList_def wEof_def wFile_def

text \<open>
  The array literal \<^verbatim>\<open>[,a]\<close>: the first element of its list group is an omitted
  expression of width zero.
\<close>

definition aOpen :: Node where "aOpen = Node 1 19 0 0 1 [] None"
definition aOmitted :: Node where "aOmitted = Node 3 130 1 1 1 [] None"
definition aComma :: Node where "aComma = Node 4 18 1 1 2 [] None"
definition aElem :: Node where "aElem = Node 5 59 2 2 3 [] None"
definition aList :: Node where "aList = Node 2 190 1 1 3 [aOmitted, aComma, aElem] None"
definition aClose :: Node where "aClose = Node 6 20 3 3 4 [] None"
definition arrayLit :: Node where "arrayLit = Node 0 132 0 0 4 [aOpen, aList, aClose] None"

lemmas array_defs = sampleKinds_def aOpen_def aOmitted_def aComma_def aElem_def aList_def
  aClose_def arrayLit_def

section \<open>List navigation\<close>

subsection \<open>The index of the list item at an offset\<close>

lemma findListItemIndex_loop_char:
  "(findListItemIndex_loop cs p i = -1 \<and>
      (\<forall>j. i \<le> j \<and> j < length cs \<longrightarrow> \<not> fullSpanContains (cs ! j) p)) \<or>
   (\<exists>k. findListItemIndex_loop cs p i = int k \<and> i \<le> k \<and> k < length cs \<and>
        fullSpanContains (cs ! k) p \<and>
        (\<forall>j. i \<le> j \<and> j < k \<longrightarrow> \<not> fullSpanContains (cs ! j) p))"
proof (induction cs p i rule: findListItemIndex_loop.induct)
  case (1 children position i)
  show ?case
  proof (cases "i < length children")
    case False
    then have "findListItemIndex_loop children position i = -1"
      by (subst findListItemIndex_loop.simps) simp
    with False show ?thesis by auto
  next
    case True
    show ?thesis
    proof (cases "fullSpanContains (children ! i) position")
      case hit: True
      then have "findListItemIndex_loop children position i = int i"
        using True by (subst findListItemIndex_loop.simps) (simp add: fullSpanContains_def)
      with True hit show ?thesis by auto
    next
      case miss: False
      then have nm: "\<not> (pos (children ! i) \<le> position \<and> position < getEnd (children ! i))"
        by (simp add: fullSpanContains_def)
      have r: "findListItemIndex_loop children position i =
               findListItemIndex_loop children position (i + 1)"
        using True nm by (subst findListItemIndex_loop.simps) auto
      have ext: "\<not> fullSpanContains (children ! j) position"
        if "i \<le> j" "j < k"
          "\<forall>j. i + 1 \<le> j \<and> j < k \<longrightarrow> \<not> fullSpanContains (children ! j) position"
        for j k
      proof (cases "j = i")
        case True
        with miss show ?thesis by simp
      next
        case False
        with that show ?thesis by simp
      qed
      from "1.IH"[OF True nm] show ?thesis
      proof (elim disjE conjE exE)
        assume a: "findListItemIndex_loop children position (i + 1) = - 1"
          and b: "\<forall>j. i + 1 \<le> j \<and> j < length children \<longrightarrow>
                    \<not> fullSpanContains (children ! j) position"
        have "\<forall>j. i \<le> j \<and> j < length children \<longrightarrow> \<not> fullSpanContains (children ! j) position"
          using ext b by blast
        with a r show ?thesis by simp
      next
        fix k
        assume a: "findListItemIndex_loop children position (i + 1) = int k"
          and k: "i + 1 \<le> k" "k < length children" "fullSpanContains (children ! k) position"
          and b: "\<forall>j. i + 1 \<le> j \<and> j < k \<longrightarrow> \<not> fullSpanContains (children ! j) position"
        have "\<forall>j. i \<le> j \<and> j < k \<longrightarrow> \<not> fullSpanContains (children ! j) position"
          using ext b by blast
        moreover have "i \<le> k" using k(1) by simp
        ultimately show ?thesis using a r k(2,3) by auto
      qed
    qed
  qed
qed

lemma sortedSpans_nth:
  "sortedSpans cs \<Longrightarrow> \<forall>c \<in> set cs. pos c \<le> getEnd c \<Longrightarrow> j < k \<Longrightarrow> k < length cs \<Longrightarrow>
   getEnd (cs ! j) \<le> pos (cs ! k)"
proof (induction cs arbitrary: j k rule: sortedSpans.induct)
  case 1
  then show ?case by simp
next
  case (2 c)
  then show ?case by simp
next
  case (3 c d cs)
  from "3.prems" have tl: "sortedSpans (d # cs)" "\<forall>c \<in> set (d # cs). pos c \<le> getEnd c"
    by auto
  show ?case
  proof (cases j)
    case 0
    show ?thesis
    proof (cases "k = 1")
      case True
      with 0 "3.prems" show ?thesis by simp
    next
      case False
      with "3.prems" 0 obtain k' where k': "k = Suc k'" "0 < k'" "k' < length (d # cs)"
        by (cases k) auto
      from "3.IH"[OF tl k'(2,3)] have "getEnd d \<le> pos ((d # cs) ! k')" by simp
      moreover from "3.prems" have "getEnd c \<le> pos d" "pos d \<le> getEnd d" by auto
      ultimately show ?thesis using 0 k' by simp
    qed
  next
    case (Suc j')
    with "3.prems" obtain k' where k': "k = Suc k'" "j' < k'" "k' < length (d # cs)"
      by (cases k) auto
    from "3.IH"[OF tl k'(2,3)] show ?thesis using Suc k' by simp
  qed
qed

text \<open>
  Claim C2, as the code has it. On a list group the function returns an index and never
  fails. The index is that of the first child whose full span \<open>[fullStart, end)\<close>
  contains the offset, and \<open>-1\<close> exactly when no child's full span contains it. When
  the children are sorted and do not overlap, it returns \<open>i\<close> if and only if the full
  span of child \<open>i\<close> contains the offset. The test reads the full start, so an offset in
  the leading trivia of a child yields the index of that child.
\<close>

theorem findListItemIndexContainingPosition_full_span:
  assumes "kind L = SyntaxList K"
  shows "\<exists>r. findListItemIndexContainingPosition K L p = Inr r \<and>
           (r = -1 \<longleftrightarrow> (\<forall>c \<in> set (getChildren L). \<not> fullSpanContains c p)) \<and>
           (\<forall>i < getChildCount L.
              r = int i \<longleftrightarrow>
                fullSpanContains (getChildAt L i) p \<and>
                (\<forall>j < i. \<not> fullSpanContains (getChildAt L j) p)) \<and>
           (sortedSpans (getChildren L) \<and> (\<forall>c \<in> set (getChildren L). pos c \<le> getEnd c) \<longrightarrow>
              (\<forall>i < getChildCount L. r = int i \<longleftrightarrow> fullSpanContains (getChildAt L i) p))"
proof -
  let ?cs = "getChildren L"
  let ?r = "findListItemIndex_loop ?cs p 0"
  have eq: "findListItemIndexContainingPosition K L p = Inr ?r"
    using assms by (simp add: findListItemIndexContainingPosition_def)
  from findListItemIndex_loop_char[of ?cs p 0]
  consider (none) "?r = -1" "\<forall>j < length ?cs. \<not> fullSpanContains (?cs ! j) p"
    | (some) k where "?r = int k" "k < length ?cs" "fullSpanContains (?cs ! k) p"
        "\<forall>j < k. \<not> fullSpanContains (?cs ! j) p"
    by auto
  then have main:
    "(?r = -1 \<longleftrightarrow> (\<forall>c \<in> set ?cs. \<not> fullSpanContains c p)) \<and>
     (\<forall>i < length ?cs. ?r = int i \<longleftrightarrow>
        fullSpanContains (?cs ! i) p \<and> (\<forall>j < i. \<not> fullSpanContains (?cs ! j) p))"
  proof cases
    case none
    then show ?thesis by (auto simp: in_set_conv_nth)
  next
    case some
    have a: "?r \<noteq> -1" using some(1) by simp
    have b: "\<exists>c \<in> set ?cs. fullSpanContains c p" using some(2,3) nth_mem by blast
    have c: "\<forall>i < length ?cs. ?r = int i \<longleftrightarrow>
        fullSpanContains (?cs ! i) p \<and> (\<forall>j < i. \<not> fullSpanContains (?cs ! j) p)"
    proof (intro allI impI)
      fix i assume "i < length ?cs"
      show "?r = int i \<longleftrightarrow>
        fullSpanContains (?cs ! i) p \<and> (\<forall>j < i. \<not> fullSpanContains (?cs ! j) p)"
      proof
        assume "?r = int i"
        with some(1) have "i = k" by simp
        with some show "fullSpanContains (?cs ! i) p \<and> (\<forall>j < i. \<not> fullSpanContains (?cs ! j) p)"
          by simp
      next
        assume h: "fullSpanContains (?cs ! i) p \<and> (\<forall>j < i. \<not> fullSpanContains (?cs ! j) p)"
        have "\<not> i < k" using h some(4) by auto
        moreover have "\<not> k < i" using h some(3) by auto
        ultimately have "i = k" by simp
        with some(1) show "?r = int i" by simp
      qed
    qed
    from a b c show ?thesis by blast
  qed
  have sorted: "\<forall>i < length ?cs. ?r = int i \<longleftrightarrow> fullSpanContains (?cs ! i) p"
    if s: "sortedSpans ?cs" and w: "\<forall>c \<in> set ?cs. pos c \<le> getEnd c"
  proof (intro allI impI)
    fix i assume i: "i < length ?cs"
    have "\<forall>j < i. \<not> fullSpanContains (?cs ! j) p" if h: "fullSpanContains (?cs ! i) p"
    proof (intro allI impI)
      fix j assume "j < i"
      from sortedSpans_nth[OF s w this i] h show "\<not> fullSpanContains (?cs ! j) p"
        by (simp add: fullSpanContains_def)
    qed
    with main i show "?r = int i \<longleftrightarrow> fullSpanContains (?cs ! i) p" by blast
  qed
  from eq main sorted show ?thesis by blast
qed

text \<open>
  The theorem at the argument list of the sample document and offset \<open>11\<close>, the digit
  \<^verbatim>\<open>2\<close>: the index is \<open>2\<close>, since the comma is a child of the list as well.
\<close>

theorem findListItemIndexContainingPosition_full_span_witness:
  "kind argList = SyntaxList sampleKinds \<and>
   findListItemIndexContainingPosition sampleKinds argList 11 = Inr 2"
proof -
  have k: "kind argList = SyntaxList sampleKinds" by (simp add: sample_defs)
  from findListItemIndexContainingPosition_full_span[OF k, of 11]
  obtain r where r: "findListItemIndexContainingPosition sampleKinds argList 11 = Inr r"
    and iff: "\<forall>i < getChildCount argList. r = int i \<longleftrightarrow>
                fullSpanContains (getChildAt argList i) 11 \<and>
                (\<forall>j < i. \<not> fullSpanContains (getChildAt argList j) 11)"
    by blast
  have "(2::nat) < getChildCount argList" by (simp add: sample_defs)
  with iff have "r = int 2 \<longleftrightarrow>
     fullSpanContains (getChildAt argList 2) 11 \<and>
     (\<forall>j < 2. \<not> fullSpanContains (getChildAt argList j) 11)" by blast
  moreover have "fullSpanContains (getChildAt argList 2) 11"
    by (simp add: sample_defs fullSpanContains_def)
  moreover have "\<not> fullSpanContains (getChildAt argList j) 11" if "j < 2" for j
  proof -
    from that have "j = 0 \<or> j = 1" by auto
    then show ?thesis by (auto simp: sample_defs fullSpanContains_def)
  qed
  ultimately have "r = 2" by simp
  with r k show ?thesis by simp
qed

text \<open>
  Claim C2 as stated fails: offset \<open>1\<close> lies in the leading trivia of the only element
  (full start \<open>0\<close>, start \<open>2\<close>), outside its rendered span, and the function returns the
  index \<open>0\<close> of that element, not \<open>-1\<close>.
\<close>

theorem findListItemIndexContainingPosition_trivia_counterexample:
  "kind paddedList = SyntaxList sampleKinds \<and>
   \<not> textSpanContains (getChildAt paddedList 0) 1 \<and>
   findListItemIndexContainingPosition sampleKinds paddedList 1 = Inr 0"
  by (simp add: findListItemIndexContainingPosition_def findListItemIndex_loop.simps
      textSpanContains_def paddedList_def paddedItem_def sampleKinds_def)

subsection \<open>The list that contains a node\<close>

lemma forEach_None: "forEach xs f = None \<longleftrightarrow> (\<forall>x \<in> set xs. f x = None)"
  by (induction xs) (auto split: option.splits)

lemma forEach_Some:
  "forEach xs f = Some r \<longleftrightarrow>
   (\<exists>i < length xs. f (xs ! i) = Some r \<and> (\<forall>j < i. f (xs ! j) = None))"
proof (induction xs)
  case Nil
  then show ?case by simp
next
  case (Cons x xs)
  show ?case
  proof (cases "f x")
    case None
    have "(\<exists>i < length (x # xs). f ((x # xs) ! i) = Some r \<and> (\<forall>j < i. f ((x # xs) ! j) = None))
          \<longleftrightarrow> (\<exists>i < length xs. f (xs ! i) = Some r \<and> (\<forall>j < i. f (xs ! j) = None))"
      (is "?A \<longleftrightarrow> ?B")
    proof
      assume ?A
      then obtain i where i: "i < length (x # xs)" "f ((x # xs) ! i) = Some r"
        "\<forall>j < i. f ((x # xs) ! j) = None" by blast
      with None obtain i' where i': "i = Suc i'" by (cases i) auto
      have "\<forall>j < i'. f (xs ! j) = None"
      proof (intro allI impI)
        fix j assume "j < i'"
        then have "Suc j < i" using i' by simp
        with i(3) have "f ((x # xs) ! Suc j) = None" by blast
        then show "f (xs ! j) = None" by simp
      qed
      with i i' show ?B by auto
    next
      assume ?B
      then obtain i where i: "i < length xs" "f (xs ! i) = Some r" "\<forall>j < i. f (xs ! j) = None"
        by blast
      have "\<forall>j < Suc i. f ((x # xs) ! j) = None"
      proof (intro allI impI)
        fix j assume "j < Suc i"
        then show "f ((x # xs) ! j) = None" using None i(3) by (cases j) auto
      qed
      with i show ?A by (intro exI[of _ "Suc i"]) auto
    qed
    with None Cons.IH show ?thesis by simp
  next
    case (Some a)
    have "(\<exists>i < length (x # xs). f ((x # xs) ! i) = Some r \<and> (\<forall>j < i. f ((x # xs) ! j) = None))
          \<longleftrightarrow> a = r" (is "?A \<longleftrightarrow> _")
    proof
      assume ?A
      then obtain i where i: "i < length (x # xs)" "f ((x # xs) ! i) = Some r"
        "\<forall>j < i. f ((x # xs) ! j) = None" by blast
      have "i = 0"
      proof (rule ccontr)
        assume "i \<noteq> 0"
        then have "0 < i" by simp
        with i(3) have "f ((x # xs) ! 0) = None" by blast
        with Some show False by simp
      qed
      with i(2) Some show "a = r" by simp
    next
      assume "a = r"
      with Some show ?A by (intro exI[of _ 0]) simp
    qed
    with Some show ?thesis by simp
  qed
qed

lemma findContainingList_no_parent:
  "parent node = None \<Longrightarrow> findContainingList K parent node = Inl TypeError"
  by (simp add: findContainingList_def)

lemma findContainingList_with_parent:
  assumes "parent node = Some p"
  shows "findContainingList K parent node \<noteq> Inl e"
    and "findContainingList K parent node = Inr None \<longleftrightarrow>
         (\<forall>c \<in> set (getChildren p). \<not> isListCovering K node c)"
    and "findContainingList K parent node = Inr (Some l) \<longleftrightarrow>
         (\<exists>i < getChildCount p. l = getChildAt p i \<and> isListCovering K node l \<and>
            (\<forall>j < i. \<not> isListCovering K node (getChildAt p j)))"
proof -
  let ?f = "\<lambda>c. if kind c = SyntaxList K \<and> pos c \<le> pos node \<and> getEnd c \<ge> getEnd node
                 then Some c else None"
  have f_None: "?f c = None \<longleftrightarrow> \<not> isListCovering K node c" for c
    by (simp add: isListCovering_def)
  have f_Some: "?f c = Some l \<longleftrightarrow> l = c \<and> isListCovering K node l" for c l
    by (auto simp: isListCovering_def)
  have eq: "findContainingList K parent node = Inr (forEach (getChildren p) ?f)"
    using assms by (simp add: findContainingList_def)
  show "findContainingList K parent node \<noteq> Inl e" unfolding eq by simp
  show "findContainingList K parent node = Inr None \<longleftrightarrow>
         (\<forall>c \<in> set (getChildren p). \<not> isListCovering K node c)"
    unfolding eq using forEach_None[of "getChildren p" ?f] f_None by simp
  show "findContainingList K parent node = Inr (Some l) \<longleftrightarrow>
         (\<exists>i < getChildCount p. l = getChildAt p i \<and> isListCovering K node l \<and>
            (\<forall>j < i. \<not> isListCovering K node (getChildAt p j)))"
    unfolding eq sum.inject forEach_Some f_None f_Some by blast
qed

text \<open>
  Claim C4, as the code has it. \<^verbatim>\<open>findContainingList\<close> fails in exactly one case: the
  node has no parent, and reading the children of the absent parent throws a
  \<open>TypeError\<close>. With a parent it never fails: it returns absent exactly when no child
  of the parent is a list group that covers the node, and otherwise the first such child.
\<close>

theorem findContainingList_outcomes:
  "(findContainingList K parent node = Inl e \<longleftrightarrow> (parent node = None \<and> e = TypeError)) \<and>
   (\<forall>p. parent node = Some p \<longrightarrow>
      (findContainingList K parent node = Inr None \<longleftrightarrow>
         (\<forall>c \<in> set (getChildren p). \<not> isListCovering K node c)) \<and>
      (\<forall>l. findContainingList K parent node = Inr (Some l) \<longleftrightarrow>
         (\<exists>i < getChildCount p. l = getChildAt p i \<and> isListCovering K node l \<and>
            (\<forall>j < i. \<not> isListCovering K node (getChildAt p j)))))"
proof (cases "parent node")
  case None
  then show ?thesis using findContainingList_no_parent[of parent node K] by auto
next
  case (Some p)
  from findContainingList_with_parent[of parent node p K] Some show ?thesis by auto
qed

text \<open>
  The theorem at the sample document: the root has no parent, so the call on it fails;
  the numeric literal \<^verbatim>\<open>2\<close> has the call expression as its parent, whose third child
  (index \<open>2\<close>) is the argument list.
\<close>

theorem findContainingList_outcomes_witness:
  "sampleParent sampleFile = None \<and> sampleParent tTwo = Some callExpr \<and>
   findContainingList sampleKinds sampleParent sampleFile = Inl TypeError \<and>
   findContainingList sampleKinds sampleParent tTwo = Inr (Some argList)"
proof -
  have none: "sampleParent sampleFile = None" by (simp add: sample_defs)
  have some: "sampleParent tTwo = Some callExpr" by (simp add: sample_defs)
  have a: "findContainingList sampleKinds sampleParent sampleFile = Inl TypeError"
    using findContainingList_outcomes[of sampleKinds sampleParent sampleFile TypeError] none
    by simp
  have i: "(2::nat) < getChildCount callExpr" "argList = getChildAt callExpr 2"
    "isListCovering sampleKinds tTwo argList"
    by (simp_all add: sample_defs isListCovering_def)
  have "\<not> isListCovering sampleKinds tTwo (getChildAt callExpr j)" if "j < 2" for j
  proof -
    from that have "j = 0 \<or> j = 1" by auto
    then show ?thesis by (auto simp: sample_defs isListCovering_def)
  qed
  with i have "\<exists>i < getChildCount callExpr. argList = getChildAt callExpr i \<and>
      isListCovering sampleKinds tTwo argList \<and>
      (\<forall>j < i. \<not> isListCovering sampleKinds tTwo (getChildAt callExpr j))"
    by blast
  with findContainingList_outcomes[of sampleKinds sampleParent tTwo TypeError] some
  have b: "findContainingList sampleKinds sampleParent tTwo = Inr (Some argList)" by simp
  from none some a b show ?thesis by simp
qed

text \<open>
  Claim C4 as stated fails in its second case: the identifier \<^verbatim>\<open>foo\<close> has the property
  access as its parent, none of whose children is a list group, and the function
  returns absent without failing.
\<close>

theorem findContainingList_absent_counterexample:
  "sampleParent tFoo = Some propAccess \<and>
   list_all (\<lambda>c. \<not> isListCovering sampleKinds tFoo c) (getChildren propAccess) \<and>
   findContainingList sampleKinds sampleParent tFoo = Inr None"
  by (simp add: findContainingList_def isListCovering_def sample_defs)

subsection \<open>The list and index of a list item\<close>

lemma indexOfFrom_distinct:
  "distinct (map nid xs) \<Longrightarrow> i < length xs \<Longrightarrow> indexOfFrom xs (xs ! i) s = int (s + i)"
proof (induction xs arbitrary: i s)
  case Nil
  then show ?case by simp
next
  case (Cons x xs)
  show ?case
  proof (cases i)
    case 0
    then show ?thesis by simp
  next
    case (Suc i')
    with Cons.prems have i': "i' < length xs" by simp
    then have "xs ! i' \<in> set xs" by simp
    with Cons.prems(1) have "nid x \<noteq> nid (xs ! i')" by auto
    moreover from Cons.prems(1) have "distinct (map nid xs)" by simp
    from Cons.IH[OF this i'] have "indexOfFrom xs (xs ! i') (Suc s) = int (Suc s + i')" .
    ultimately show ?thesis using Suc by simp
  qed
qed

lemma wellFormed_children:
  "wellFormed K n \<Longrightarrow> c \<in> set (getChildren n) \<Longrightarrow>
   wellFormed K c \<and> pos n \<le> pos c \<and> getEnd c \<le> getEnd n"
  by (cases n) auto

lemma wellFormed_sorted: "wellFormed K n \<Longrightarrow> sortedSpans (getChildren n)"
  by (cases n) auto

lemma wellFormed_pos_le_end: "wellFormed K n \<Longrightarrow> pos n \<le> getEnd n"
  by (cases n) auto

lemma wellFormed_pos_le_start: "wellFormed K n \<Longrightarrow> pos n \<le> getStart n"
  by (cases n) auto

lemma wellFormed_token_leaf: "wellFormed K n \<Longrightarrow> isToken K n \<Longrightarrow> getChildren n = []"
  by (cases n) auto

lemma wellFormed_child_widths:
  "wellFormed K n \<Longrightarrow> \<forall>c \<in> set (getChildren n). pos c \<le> getEnd c"
  using wellFormed_children wellFormed_pos_le_end by blast

text \<open>
  Claim C8, as the code has it. Let the list group \<open>L\<close> be child \<open>k\<close> of a well-formed
  node \<open>P\<close>, and let child \<open>i\<close> of \<open>L\<close> have \<open>P\<close> as its parent and an identity
  different from the other children of \<open>L\<close>. If the child ends after the full start of
  \<open>L\<close>, or no child of \<open>P\<close> before \<open>L\<close> is a list group that covers the span of the
  child, then \<^verbatim>\<open>findListItemInfo\<close> on that child returns the pair of \<open>L\<close> and \<open>i\<close>.
  Every element of non-zero width ends after the full start of its list, and a zero-width
  element is included as soon as no earlier list group reaches it.
\<close>

theorem findListItemInfo_first_covering_list:
  assumes wf: "wellFormed K P"
    and k: "k < getChildCount P" "getChildAt P k = L"
    and L: "kind L = SyntaxList K"
    and i: "i < getChildCount L"
    and par: "parent (getChildAt L i) = Some P"
    and ids: "distinct (map nid (getChildren L))"
    and first: "pos L < getEnd (getChildAt L i) \<or>
                (\<forall>j < k. \<not> isListCovering K (getChildAt L i) (getChildAt P j))"
  shows "findListItemInfo K parent (getChildAt L i) = Inr \<lparr> listItemIndex = int i, list' = L \<rparr>"
proof -
  let ?c = "getChildAt L i"
  have Lin: "L \<in> set (getChildren P)" using k by auto
  have wfL: "wellFormed K L" using wellFormed_children[OF wf Lin] by simp
  have cin: "?c \<in> set (getChildren L)" using i by simp
  have encl: "pos L \<le> pos ?c" "getEnd ?c \<le> getEnd L"
    using wellFormed_children[OF wfL cin] by simp_all
  have covL: "isListCovering K ?c L" using L encl by (simp add: isListCovering_def)
  have sorted: "sortedSpans (getChildren P)" using wf by (rule wellFormed_sorted)
  have widths: "\<forall>c \<in> set (getChildren P). pos c \<le> getEnd c"
    using wf by (rule wellFormed_child_widths)
  have earlier: "\<not> isListCovering K ?c (getChildAt P j)" if j: "j < k" for j
  proof (rule disjE[OF first])
    assume lt: "pos L < getEnd ?c"
    from sortedSpans_nth[OF sorted widths j k(1)] k(2)
    have "getEnd (getChildAt P j) \<le> pos L" by simp
    with lt show ?thesis by (simp add: isListCovering_def)
  next
    assume "\<forall>j < k. \<not> isListCovering K ?c (getChildAt P j)"
    with j show ?thesis by simp
  qed
  have "\<exists>m < getChildCount P. L = getChildAt P m \<and> isListCovering K ?c L \<and>
          (\<forall>j < m. \<not> isListCovering K ?c (getChildAt P j))"
    using k covL earlier by (intro exI[of _ k]) simp
  with findContainingList_with_parent(3)[of parent ?c P K L] par
  have l: "findContainingList K parent ?c = Inr (Some L)" by blast
  have "indexOf (getChildren L) ?c = int i"
    using indexOfFrom_distinct[OF ids i, of 0] by (simp add: indexOf_def)
  with l show ?thesis by (simp add: findListItemInfo_def Let_def)
qed

text \<open>
  The theorem at two elements. The numeric literal \<^verbatim>\<open>2\<close> of the sample document is child
  \<open>2\<close> of the argument list of the call expression and ends after the start of that
  list. The omitted first element of the array literal \<^verbatim>\<open>[,a]\<close> has width zero and lies
  at the start of its list group; the only child before the list group is the opening
  bracket, so the function returns the list group and the index \<open>0\<close>.
\<close>

theorem findListItemInfo_first_covering_list_witness:
  "wellFormed sampleKinds callExpr \<and> 2 < getChildCount callExpr \<and>
   getChildAt callExpr 2 = argList \<and>
   kind argList = SyntaxList sampleKinds \<and> 2 < getChildCount argList \<and>
   sampleParent (getChildAt argList 2) = Some callExpr \<and>
   distinct (map nid (getChildren argList)) \<and>
   pos argList < getEnd (getChildAt argList 2) \<and>
   getChildAt argList 2 = tTwo \<and>
   findListItemInfo sampleKinds sampleParent tTwo =
     Inr \<lparr> listItemIndex = 2, list' = argList \<rparr> \<and>
   wellFormed sampleKinds arrayLit \<and> 1 < getChildCount arrayLit \<and>
   getChildAt arrayLit 1 = aList \<and>
   kind aList = SyntaxList sampleKinds \<and> 0 < getChildCount aList \<and>
   distinct (map nid (getChildren aList)) \<and>
   getChildAt aList 0 = aOmitted \<and> pos aOmitted = getEnd aOmitted \<and>
   \<not> pos aList < getEnd aOmitted \<and>
   \<not> isListCovering sampleKinds aOmitted (getChildAt arrayLit 0) \<and>
   findListItemInfo sampleKinds (\<lambda>n. Some arrayLit) aOmitted =
     Inr \<lparr> listItemIndex = 0, list' = aList \<rparr>"
proof -
  have h1: "wellFormed sampleKinds callExpr" by (simp add: sample_defs isToken_def)
  have h2: "2 < getChildCount callExpr" "getChildAt callExpr 2 = argList"
    by (simp_all add: sample_defs)
  have h3: "kind argList = SyntaxList sampleKinds" by (simp add: sample_defs)
  have h4: "2 < getChildCount argList" by (simp add: sample_defs)
  have h5: "sampleParent (getChildAt argList 2) = Some callExpr" by (simp add: sample_defs)
  have h6: "distinct (map nid (getChildren argList))" by (simp add: sample_defs)
  have h7: "pos argList < getEnd (getChildAt argList 2)" by (simp add: sample_defs)
  have h8: "getChildAt argList 2 = tTwo" by (simp add: sample_defs)
  from h7 have h7': "pos argList < getEnd (getChildAt argList 2) \<or>
      (\<forall>j < 2. \<not> isListCovering sampleKinds (getChildAt argList 2) (getChildAt callExpr j))"
    by (rule disjI1)
  from findListItemInfo_first_covering_list[of sampleKinds callExpr 2 argList 2 sampleParent,
      OF h1 h2 h3 h4 h5 h6 h7']
  have a: "findListItemInfo sampleKinds sampleParent tTwo =
     Inr \<lparr> listItemIndex = 2, list' = argList \<rparr>" unfolding h8 by simp
  have g1: "wellFormed sampleKinds arrayLit" by (simp add: array_defs isToken_def)
  have g2: "1 < getChildCount arrayLit" "getChildAt arrayLit 1 = aList"
    by (simp_all add: array_defs)
  have g3: "kind aList = SyntaxList sampleKinds" by (simp add: array_defs)
  have g4: "0 < getChildCount aList" by (simp add: array_defs)
  have g5: "(\<lambda>n. Some arrayLit) (getChildAt aList 0) = Some arrayLit" by simp
  have g6: "distinct (map nid (getChildren aList))" by (simp add: array_defs)
  have g8: "getChildAt aList 0 = aOmitted" by (simp add: array_defs)
  have g9: "pos aOmitted = getEnd aOmitted" "\<not> pos aList < getEnd aOmitted"
    by (simp_all add: array_defs)
  have g7: "\<not> isListCovering sampleKinds aOmitted (getChildAt arrayLit 0)"
    by (simp add: array_defs isListCovering_def)
  then have g7': "pos aList < getEnd (getChildAt aList 0) \<or>
      (\<forall>j < 1. \<not> isListCovering sampleKinds (getChildAt aList 0) (getChildAt arrayLit j))"
    unfolding g8 by simp
  from findListItemInfo_first_covering_list[of sampleKinds arrayLit 1 aList 0
      "\<lambda>n. Some arrayLit", OF g1 g2 g3 g4 g5 g6 g7']
  have b: "findListItemInfo sampleKinds (\<lambda>n. Some arrayLit) aOmitted =
     Inr \<lparr> listItemIndex = 0, list' = aList \<rparr>" unfolding g8 by simp
  from h1 h2 h3 h4 h5 h6 h7 h8 a g1 g2 g3 g4 g6 g8 g9 g7 b show ?thesis by blast
qed

text \<open>
  Claim C8 as stated fails for a zero-width element: in the well-formed tree
  \<open>twoLists\<close> the placeholder is child \<open>0\<close> of the second list group, yet the first
  list group ends where the placeholder lies and covers its empty span, so the function
  returns the first list group and the index \<open>-1\<close>.
\<close>

theorem findListItemInfo_zero_width_counterexample:
  "wellFormed sampleKinds twoLists \<and> fullyCovered sampleKinds twoLists \<and>
   startsNested twoLists \<and> secondList \<in> set (getChildren twoLists) \<and>
   kind secondList = SyntaxList sampleKinds \<and> getChildAt secondList 0 = missingItem \<and>
   distinct (map nid (getChildren secondList)) \<and>
   findListItemInfo sampleKinds (\<lambda>n. Some twoLists) missingItem =
     Inr \<lparr> listItemIndex = -1, list' = firstList \<rparr> \<and>
   firstList \<noteq> secondList"
  by (simp add: findListItemInfo_def findContainingList_def indexOf_def isToken_def
      twoLists_def firstList_def secondList_def firstItem_def missingItem_def
      secondItem_def sampleKinds_def)

section \<open>Position resolution\<close>

subsection \<open>Nodes of a well-formed tree\<close>

lemma nodes_unfold: "nodes n = n # concat (map nodes (getChildren n))"
  by (cases n) simp

lemma nodes_self: "n \<in> set (nodes n)"
  by (cases n) simp

lemma nodes_cases:
  "m \<in> set (nodes n) \<Longrightarrow> m = n \<or> (\<exists>c \<in> set (getChildren n). m \<in> set (nodes c))"
  by (cases n) auto

lemma wellFormed_nodes:
  "wellFormed K n \<Longrightarrow> m \<in> set (nodes n) \<Longrightarrow>
   wellFormed K m \<and> pos n \<le> pos m \<and> getEnd m \<le> getEnd n"
proof (induction n)
  case (Node i k p s e cs ex)
  from nodes_cases[OF Node.prems(2)] show ?case
  proof
    assume "m = Node i k p s e cs ex"
    with Node.prems(1) show ?thesis by simp
  next
    assume "\<exists>c \<in> set (getChildren (Node i k p s e cs ex)). m \<in> set (nodes c)"
    then obtain c where c: "c \<in> set cs" "m \<in> set (nodes c)" by auto
    from Node.prems(1) c(1) have wc: "wellFormed K c" "p \<le> pos c" "getEnd c \<le> e" by auto
    from Node.IH(1)[OF c(1) wc(1) c(2)] wc show ?thesis by simp
  qed
qed

lemma startsNested_nodes:
  "startsNested n \<Longrightarrow> m \<in> set (nodes n) \<Longrightarrow> startsNested m \<and> getStart n \<le> getStart m"
proof (induction n)
  case (Node i k p s e cs ex)
  from nodes_cases[OF Node.prems(2)] show ?case
  proof
    assume "m = Node i k p s e cs ex"
    with Node.prems(1) show ?thesis by simp
  next
    assume "\<exists>c \<in> set (getChildren (Node i k p s e cs ex)). m \<in> set (nodes c)"
    then obtain c where c: "c \<in> set cs" "m \<in> set (nodes c)" by auto
    from Node.prems(1) c(1) have sc: "startsNested c" "s \<le> getStart c" by auto
    from Node.IH(1)[OF c(1) sc(1) c(2)] sc show ?thesis by simp
  qed
qed

lemma first_index:
  "\<exists>c \<in> set cs. P c \<Longrightarrow> \<exists>k < length cs. P (cs ! k) \<and> (\<forall>j < k. \<not> P (cs ! j))"
proof -
  assume "\<exists>c \<in> set cs. P c"
  then obtain n where n: "n < length cs \<and> P (cs ! n)" by (auto simp: in_set_conv_nth)
  define k where "k = (LEAST n. n < length cs \<and> P (cs ! n))"
  have "k < length cs \<and> P (cs ! k)" unfolding k_def using n by (rule LeastI)
  moreover have "\<not> P (cs ! j)" if "j < k" for j
  proof
    assume "P (cs ! j)"
    moreover from that \<open>k < length cs \<and> P (cs ! k)\<close> have "j < length cs" by simp
    ultimately have "k \<le> j" unfolding k_def by (intro Least_le) simp
    with that show False by simp
  qed
  ultimately show ?thesis by blast
qed

subsection \<open>Full-span resolution\<close>

lemma getTokenAtPosition_loop_done:
  "\<not> i < getChildCount cur \<Longrightarrow> getTokenAtPosition_loop cur p i = cur"
  by (subst getTokenAtPosition_loop.simps) simp

lemma getTokenAtPosition_loop_hit:
  "i < getChildCount cur \<Longrightarrow> fullSpanContains (getChildAt cur i) p \<Longrightarrow>
   getTokenAtPosition_loop cur p i = getTokenAtPosition_loop (getChildAt cur i) p 0"
  by (subst getTokenAtPosition_loop.simps) (simp add: Let_def fullSpanContains_def)

lemma getTokenAtPosition_loop_miss:
  "i < getChildCount cur \<Longrightarrow> \<not> fullSpanContains (getChildAt cur i) p \<Longrightarrow>
   getTokenAtPosition_loop cur p i = getTokenAtPosition_loop cur p (i + 1)"
  by (subst getTokenAtPosition_loop.simps) (auto simp: Let_def fullSpanContains_def)

lemma getTokenAtPosition_loop_skip:
  "k < getChildCount cur \<Longrightarrow> i \<le> k \<Longrightarrow>
   \<forall>j. i \<le> j \<and> j < k \<longrightarrow> \<not> fullSpanContains (getChildAt cur j) p \<Longrightarrow>
   fullSpanContains (getChildAt cur k) p \<Longrightarrow>
   getTokenAtPosition_loop cur p i = getTokenAtPosition_loop (getChildAt cur k) p 0"
proof (induction "k - i" arbitrary: i)
  case 0
  then have "i = k" by simp
  with 0 show ?case by (simp add: getTokenAtPosition_loop_hit)
next
  case (Suc d)
  then have lt: "i < k" by simp
  with Suc.prems have "\<not> fullSpanContains (getChildAt cur i) p" by simp
  with lt Suc.prems(1) have "getTokenAtPosition_loop cur p i = getTokenAtPosition_loop cur p (i + 1)"
    by (intro getTokenAtPosition_loop_miss) simp_all
  moreover have "getTokenAtPosition_loop cur p (i + 1) = getTokenAtPosition_loop (getChildAt cur k) p 0"
    using Suc.hyps(2) Suc.prems lt by (intro Suc.hyps(1)) auto
  ultimately show ?case by simp
qed

lemma getTokenAtPosition_loop_none:
  "\<forall>j. i \<le> j \<and> j < getChildCount cur \<longrightarrow> \<not> fullSpanContains (getChildAt cur j) p
   \<Longrightarrow> getTokenAtPosition_loop cur p i = cur"
proof (induction "getChildCount cur - i" arbitrary: i)
  case 0
  then show ?case by (simp add: getTokenAtPosition_loop_done)
next
  case (Suc d)
  then have lt: "i < getChildCount cur" by simp
  with Suc.prems have "getTokenAtPosition_loop cur p i = getTokenAtPosition_loop cur p (i + 1)"
    by (intro getTokenAtPosition_loop_miss) simp_all
  moreover have "getTokenAtPosition_loop cur p (i + 1) = cur"
    using Suc.hyps(2) Suc.prems by (intro Suc.hyps(1)) auto
  ultimately show ?case by simp
qed

lemma getTokenAtPosition_loop_result:
  "j < getChildCount (getTokenAtPosition_loop cur p i) \<Longrightarrow>
   (getTokenAtPosition_loop cur p i = cur \<longrightarrow> i \<le> j) \<Longrightarrow>
   \<not> fullSpanContains (getChildAt (getTokenAtPosition_loop cur p i) j) p"
proof (induction cur p i rule: getTokenAtPosition_loop.induct)
  case (1 current position i)
  show ?case
  proof (cases "i < getChildCount current")
    case False
    then have r: "getTokenAtPosition_loop current position i = current"
      by (rule getTokenAtPosition_loop_done)
    with "1.prems" False show ?thesis by simp
  next
    case True
    show ?thesis
    proof (cases "fullSpanContains (getChildAt current i) position")
      case m: True
      then have m': "pos (getChildAt current i) \<le> position \<and> position < getEnd (getChildAt current i)"
        by (simp add: fullSpanContains_def)
      have r: "getTokenAtPosition_loop current position i =
               getTokenAtPosition_loop (getChildAt current i) position 0"
        using True m by (rule getTokenAtPosition_loop_hit)
      show ?thesis
        unfolding r using "1.IH"(1)[OF True refl m'] "1.prems"(1) unfolding r by simp
    next
      case m: False
      then have m': "\<not> (pos (getChildAt current i) \<le> position \<and> position < getEnd (getChildAt current i))"
        by (simp add: fullSpanContains_def)
      have r: "getTokenAtPosition_loop current position i =
               getTokenAtPosition_loop current position (i + 1)"
        using True m by (rule getTokenAtPosition_loop_miss)
      show ?thesis
      proof (cases "getTokenAtPosition_loop current position (i + 1) = current \<and> j = i")
        case True
        then show ?thesis unfolding r using m by simp
      next
        case False
        with "1.prems"(2)
        have "getTokenAtPosition_loop current position (i + 1) = current \<longrightarrow> i + 1 \<le> j"
          unfolding r by auto
        then show ?thesis
          unfolding r using "1.IH"(2)[OF True refl m'] "1.prems"(1) unfolding r by simp
      qed
    qed
  qed
qed

lemma getTokenAtPosition_loop_in_nodes:
  "getTokenAtPosition_loop cur p i \<in> set (nodes cur)"
proof (induction cur p i rule: getTokenAtPosition_loop.induct)
  case (1 current position i)
  show ?case
  proof (cases "i < getChildCount current")
    case False
    then show ?thesis by (simp add: getTokenAtPosition_loop_done nodes_self)
  next
    case True
    show ?thesis
    proof (cases "fullSpanContains (getChildAt current i) position")
      case m: True
      then have m': "pos (getChildAt current i) \<le> position \<and> position < getEnd (getChildAt current i)"
        by (simp add: fullSpanContains_def)
      have "getTokenAtPosition_loop (getChildAt current i) position 0 \<in> set (nodes (getChildAt current i))"
        using "1.IH"(1)[OF True refl m'] .
      moreover have "getChildAt current i \<in> set (getChildren current)" using True by simp
      ultimately have "getTokenAtPosition_loop (getChildAt current i) position 0 \<in> set (nodes current)"
        by (subst nodes_unfold[of current]) auto
      then show ?thesis using getTokenAtPosition_loop_hit[OF True m] by simp
    next
      case m: False
      then have m': "\<not> (pos (getChildAt current i) \<le> position \<and> position < getEnd (getChildAt current i))"
        by (simp add: fullSpanContains_def)
      from "1.IH"(2)[OF True refl m'] show ?thesis
        using getTokenAtPosition_loop_miss[OF True m] by simp
    qed
  qed
qed

text \<open>
  Claim C9. \<^verbatim>\<open>getTokenAtPosition\<close> is a total function that returns a node of the
  tree: it cannot throw and has no absent result. No child of the node it returns has a
  full span that contains the offset; when no child of the source file has one, for
  example at an offset before the file or at its end, it returns the source file itself.
\<close>

theorem getTokenAtPosition_unmatched:
  "getTokenAtPosition sourceFile p \<in> set (nodes sourceFile) \<and>
   (\<forall>c \<in> set (getChildren (getTokenAtPosition sourceFile p)). \<not> fullSpanContains c p) \<and>
   ((\<forall>c \<in> set (getChildren sourceFile). \<not> fullSpanContains c p) \<longrightarrow>
      getTokenAtPosition sourceFile p = sourceFile)"
proof -
  have a: "getTokenAtPosition sourceFile p \<in> set (nodes sourceFile)"
    by (simp add: getTokenAtPosition_def getTokenAtPosition_loop_in_nodes)
  have b: "\<forall>c \<in> set (getChildren (getTokenAtPosition sourceFile p)). \<not> fullSpanContains c p"
    unfolding getTokenAtPosition_def
    using getTokenAtPosition_loop_result[of _ sourceFile p 0]
    by (auto simp: in_set_conv_nth)
  have c: "getTokenAtPosition sourceFile p = sourceFile"
    if "\<forall>c \<in> set (getChildren sourceFile). \<not> fullSpanContains c p"
    unfolding getTokenAtPosition_def
    using that by (intro getTokenAtPosition_loop_none) simp
  from a b c show ?thesis by blast
qed

text \<open>
  The theorem at the sample document: at offset \<open>13\<close>, the length of the text, and at
  offset \<open>-1\<close> no child of the source file matches (the end-of-file token has zero
  width), and the result is the source file, which is not a token.
\<close>

theorem getTokenAtPosition_unmatched_witness:
  "list_all (\<lambda>c. \<not> fullSpanContains c 13) (getChildren sampleFile) \<and>
   list_all (\<lambda>c. \<not> fullSpanContains c (-1)) (getChildren sampleFile) \<and>
   getTokenAtPosition sampleFile 13 = sampleFile \<and>
   getTokenAtPosition sampleFile (-1) = sampleFile \<and>
   \<not> isToken sampleKinds sampleFile"
proof -
  have a: "\<forall>c \<in> set (getChildren sampleFile). \<not> fullSpanContains c 13"
    by (simp add: sample_defs fullSpanContains_def)
  have b: "\<forall>c \<in> set (getChildren sampleFile). \<not> fullSpanContains c (-1)"
    by (simp add: sample_defs fullSpanContains_def)
  have c: "getTokenAtPosition sampleFile 13 = sampleFile"
    using getTokenAtPosition_unmatched[of sampleFile 13] a by blast
  have d: "getTokenAtPosition sampleFile (-1) = sampleFile"
    using getTokenAtPosition_unmatched[of sampleFile "-1"] b by blast
  have e: "\<not> isToken sampleKinds sampleFile" by (simp add: sample_defs isToken_def)
  from a b c d e show ?thesis by (simp add: list_all_iff)
qed

lemma abuttingSpans_cover:
  "cs \<noteq> [] \<Longrightarrow> abuttingSpans cs \<Longrightarrow> pos (hd cs) \<le> p \<Longrightarrow> p < getEnd (last cs) \<Longrightarrow>
   \<exists>c \<in> set cs. fullSpanContains c p"
proof (induction cs rule: abuttingSpans.induct)
  case 1
  then show ?case by simp
next
  case (2 c)
  then show ?case by (simp add: fullSpanContains_def)
next
  case (3 c d cs)
  show ?case
  proof (cases "p < getEnd c")
    case True
    with "3.prems" show ?thesis by (simp add: fullSpanContains_def)
  next
    case False
    with "3.prems" have "pos (hd (d # cs)) \<le> p" by simp
    moreover from "3.prems" have "abuttingSpans (d # cs)" "p < getEnd (last (d # cs))" by simp_all
    ultimately have "\<exists>c \<in> set (d # cs). fullSpanContains c p"
      by (intro "3.IH") simp_all
    then show ?thesis by auto
  qed
qed

lemma getTokenAtPosition_loop_covered:
  "fullyCovered K n \<Longrightarrow> fullSpanContains n p \<Longrightarrow>
   isToken K (getTokenAtPosition_loop n p 0) \<and> getChildren (getTokenAtPosition_loop n p 0) = []"
proof (induction n)
  case (Node i k ps s e cs ex)
  let ?n = "Node i k ps s e cs ex"
  show ?case
  proof (cases "cs = []")
    case True
    then have "getTokenAtPosition_loop ?n p 0 = ?n" by (simp add: getTokenAtPosition_loop_done)
    moreover from True Node.prems have "isToken K ?n" by (simp add: fullSpanContains_def)
    ultimately show ?thesis using True by simp
  next
    case False
    with Node.prems have cov: "pos (hd cs) = ps" "getEnd (last cs) = e" "abuttingSpans cs"
      "\<forall>c \<in> set cs. fullyCovered K c" by simp_all
    from Node.prems(2) cov(1,2) have "pos (hd cs) \<le> p" "p < getEnd (last cs)"
      by (simp_all add: fullSpanContains_def)
    from abuttingSpans_cover[OF False cov(3) this]
    have "\<exists>c \<in> set cs. fullSpanContains c p" .
    from first_index[of cs "\<lambda>c. fullSpanContains c p", OF this]
    obtain m where m: "m < length cs" "fullSpanContains (cs ! m) p"
      "\<forall>j < m. \<not> fullSpanContains (cs ! j) p" by blast
    have r: "getTokenAtPosition_loop ?n p 0 = getTokenAtPosition_loop (cs ! m) p 0"
      using getTokenAtPosition_loop_skip[of m ?n 0 p] m by simp
    have "cs ! m \<in> set cs" using m(1) by simp
    from Node.IH(1)[OF this _ m(2)] cov(4) this show ?thesis unfolding r by blast
  qed
qed

text \<open>
  Claim C3. In a tree whose characters are all covered by tokens, full-span
  resolution at an offset inside the full span of the source file, that is from \<open>0\<close>
  up to but excluding the length of the document, returns a leaf of token kind.
\<close>

theorem getTokenAtPosition_returns_token:
  assumes "fullyCovered K sourceFile" and "pos sourceFile \<le> p" and "p < getEnd sourceFile"
  shows "isToken K (getTokenAtPosition sourceFile p) \<and>
         getChildren (getTokenAtPosition sourceFile p) = []"
  using getTokenAtPosition_loop_covered[OF assms(1), of p] assms(2,3)
  by (simp add: getTokenAtPosition_def fullSpanContains_def)

text \<open>
  The theorem at the sample document and offset \<open>10\<close>, the blank before \<^verbatim>\<open>2\<close>.
\<close>

theorem getTokenAtPosition_returns_token_witness:
  "fullyCovered sampleKinds sampleFile \<and> pos sampleFile \<le> 10 \<and> 10 < getEnd sampleFile \<and>
   isToken sampleKinds (getTokenAtPosition sampleFile 10) \<and>
   getChildren (getTokenAtPosition sampleFile 10) = []"
proof -
  have h1: "fullyCovered sampleKinds sampleFile" by (simp add: sample_defs isToken_def)
  have h2: "pos sampleFile \<le> 10" by (simp add: sample_defs)
  have h3: "10 < getEnd sampleFile" by (simp add: sample_defs)
  from getTokenAtPosition_returns_token[OF h1 h2 h3] h1 h2 h3 show ?thesis by blast
qed

lemma getTokenAtPosition_loop_token:
  "wellFormed K n \<Longrightarrow> t \<in> set (nodes n) \<Longrightarrow> isToken K t \<Longrightarrow> fullSpanContains t p \<Longrightarrow>
   getTokenAtPosition_loop n p 0 = t"
proof (induction n)
  case (Node i k ps s e cs ex)
  let ?n = "Node i k ps s e cs ex"
  from nodes_cases[OF Node.prems(2)] show ?case
  proof
    assume eq: "t = ?n"
    with Node.prems(1,3) have "cs = []" by simp
    then show ?thesis using eq by (simp add: getTokenAtPosition_loop_done)
  next
    assume "\<exists>c \<in> set (getChildren ?n). t \<in> set (nodes c)"
    then obtain c where c: "c \<in> set cs" "t \<in> set (nodes c)" by auto
    from c(1) obtain k where k: "k < length cs" "cs ! k = c" by (auto simp: in_set_conv_nth)
    from Node.prems(1) c(1) have wc: "wellFormed K c" by auto
    from wellFormed_nodes[OF wc c(2)] Node.prems(4) have cp: "fullSpanContains c p"
      by (simp add: fullSpanContains_def)
    have sorted: "sortedSpans cs" using Node.prems(1) by simp
    have widths: "\<forall>c \<in> set cs. pos c \<le> getEnd c"
      using wellFormed_child_widths[OF Node.prems(1)] by simp
    have before: "\<not> fullSpanContains (cs ! j) p" if "j < k" for j
      using sortedSpans_nth[OF sorted widths that k(1)] cp k(2)
      by (simp add: fullSpanContains_def)
    have "getTokenAtPosition_loop ?n p 0 = getTokenAtPosition_loop (getChildAt ?n k) p 0"
      using k cp before by (intro getTokenAtPosition_loop_skip) auto
    also have "\<dots> = t" using Node.IH(1)[OF c(1) wc c(2) Node.prems(3,4)] k(2) by simp
    finally show ?thesis .
  qed
qed

text \<open>
  Claim C6. For a token \<open>t\<close> of a well-formed tree and an offset in the full span
  \<open>[fullStart, end)\<close> of \<open>t\<close>, leading trivia included, full-span resolution returns \<open>t\<close>.
\<close>

theorem getTokenAtPosition_full_span_of_token:
  assumes "wellFormed K sourceFile" and "t \<in> set (nodes sourceFile)" and "isToken K t"
    and "pos t \<le> p" and "p < getEnd t"
  shows "getTokenAtPosition sourceFile p = t"
  using getTokenAtPosition_loop_token[OF assms(1-3), of p] assms(4,5)
  by (simp add: getTokenAtPosition_def fullSpanContains_def)

text \<open>
  The theorem at the sample document: offset \<open>10\<close> is the blank before \<^verbatim>\<open>2\<close>, in the
  leading trivia of that token.
\<close>

theorem getTokenAtPosition_full_span_of_token_witness:
  "wellFormed sampleKinds sampleFile \<and> tTwo \<in> set (nodes sampleFile) \<and>
   isToken sampleKinds tTwo \<and> pos tTwo \<le> 10 \<and> 10 < getEnd tTwo \<and>
   getTokenAtPosition sampleFile 10 = tTwo"
proof -
  have h1: "wellFormed sampleKinds sampleFile" by (simp add: sample_defs isToken_def)
  have h2: "tTwo \<in> set (nodes sampleFile)" by (simp add: sample_defs)
  have h3: "isToken sampleKinds tTwo" by (simp add: sample_defs isToken_def)
  have h4: "pos tTwo \<le> 10" by (simp add: sample_defs)
  have h5: "10 < getEnd tTwo" by (simp add: sample_defs)
  from getTokenAtPosition_full_span_of_token[OF h1 h2 h3 h4 h5] h1 h2 h3 h4 h5
  show ?thesis by blast
qed

subsection \<open>Rendered-span resolution\<close>

lemma getNodeAtPosition_loop_done:
  "\<not> i < getChildCount cur \<Longrightarrow> getNodeAtPosition_loop cur p i = cur"
  by (subst getNodeAtPosition_loop.simps) simp

lemma getNodeAtPosition_loop_hit:
  "i < getChildCount cur \<Longrightarrow> textSpanContains (getChildAt cur i) p \<Longrightarrow>
   getNodeAtPosition_loop cur p i = getNodeAtPosition_loop (getChildAt cur i) p 0"
  by (subst getNodeAtPosition_loop.simps) (simp add: Let_def textSpanContains_def)

lemma getNodeAtPosition_loop_miss:
  "i < getChildCount cur \<Longrightarrow> \<not> textSpanContains (getChildAt cur i) p \<Longrightarrow>
   getNodeAtPosition_loop cur p i = getNodeAtPosition_loop cur p (i + 1)"
  by (subst getNodeAtPosition_loop.simps) (auto simp: Let_def textSpanContains_def)

lemma getNodeAtPosition_loop_skip:
  "k < getChildCount cur \<Longrightarrow> i \<le> k \<Longrightarrow>
   \<forall>j. i \<le> j \<and> j < k \<longrightarrow> \<not> textSpanContains (getChildAt cur j) p \<Longrightarrow>
   textSpanContains (getChildAt cur k) p \<Longrightarrow>
   getNodeAtPosition_loop cur p i = getNodeAtPosition_loop (getChildAt cur k) p 0"
proof (induction "k - i" arbitrary: i)
  case 0
  then have "i = k" by simp
  with 0 show ?case by (simp add: getNodeAtPosition_loop_hit)
next
  case (Suc d)
  then have lt: "i < k" by simp
  with Suc.prems have "\<not> textSpanContains (getChildAt cur i) p" by simp
  with lt Suc.prems(1) have "getNodeAtPosition_loop cur p i = getNodeAtPosition_loop cur p (i + 1)"
    by (intro getNodeAtPosition_loop_miss) simp_all
  moreover have "getNodeAtPosition_loop cur p (i + 1) = getNodeAtPosition_loop (getChildAt cur k) p 0"
    using Suc.hyps(2) Suc.prems lt by (intro Suc.hyps(1)) auto
  ultimately show ?case by simp
qed

lemma getNodeAtPosition_loop_token:
  "wellFormed K n \<Longrightarrow> startsNested n \<Longrightarrow> t \<in> set (nodes n) \<Longrightarrow> isToken K t \<Longrightarrow>
   textSpanContains t p \<Longrightarrow> getNodeAtPosition_loop n p 0 = t"
proof (induction n)
  case (Node i k ps s e cs ex)
  let ?n = "Node i k ps s e cs ex"
  from nodes_cases[OF Node.prems(3)] show ?case
  proof
    assume eq: "t = ?n"
    with Node.prems(1,4) have "cs = []" by simp
    then show ?thesis using eq by (simp add: getNodeAtPosition_loop_done)
  next
    assume "\<exists>c \<in> set (getChildren ?n). t \<in> set (nodes c)"
    then obtain c where c: "c \<in> set cs" "t \<in> set (nodes c)" by auto
    from c(1) obtain k where k: "k < length cs" "cs ! k = c" by (auto simp: in_set_conv_nth)
    from Node.prems(1) c(1) have wc: "wellFormed K c" by auto
    from Node.prems(2) c(1) have sc: "startsNested c" by auto
    from wellFormed_nodes[OF wc c(2)]
    have t: "wellFormed K t" "pos c \<le> pos t" "getEnd t \<le> getEnd c" by simp_all
    from startsNested_nodes[OF sc c(2)] have st: "getStart c \<le> getStart t" by simp
    from t st Node.prems(5) have cp: "textSpanContains c p"
      by (simp add: textSpanContains_def)
    have tp: "pos c \<le> p"
      using t(2) wellFormed_pos_le_start[OF t(1)] Node.prems(5) by (simp add: textSpanContains_def)
    have sorted: "sortedSpans cs" using Node.prems(1) by simp
    have widths: "\<forall>c \<in> set cs. pos c \<le> getEnd c"
      using wellFormed_child_widths[OF Node.prems(1)] by simp
    have before: "\<not> textSpanContains (cs ! j) p" if "j < k" for j
      using sortedSpans_nth[OF sorted widths that k(1)] tp k(2)
      by (simp add: textSpanContains_def)
    have "getNodeAtPosition_loop ?n p 0 = getNodeAtPosition_loop (getChildAt ?n k) p 0"
      using k cp before by (intro getNodeAtPosition_loop_skip) auto
    also have "\<dots> = t"
      using Node.IH(1)[OF c(1) wc sc c(2) Node.prems(4,5)] k(2) by simp
    finally show ?thesis .
  qed
qed

text \<open>
  Claim C7. For a token \<open>t\<close> of a well-formed tree with nested rendered spans and an
  offset in the rendered span \<open>[start, end)\<close> of \<open>t\<close>, full-span resolution and
  rendered-span resolution return the same node, the token \<open>t\<close>. Within the full span
  of \<open>t\<close> the two can therefore differ only at offsets of its leading trivia.
\<close>

theorem resolvers_agree_on_token_text:
  assumes "wellFormed K sourceFile" and "startsNested sourceFile"
    and "t \<in> set (nodes sourceFile)" and "isToken K t"
    and "getStart t \<le> p" and "p < getEnd t"
  shows "getTokenAtPosition sourceFile p = getNodeAtPosition sourceFile p \<and>
         getNodeAtPosition sourceFile p = t"
proof -
  have "wellFormed K t" using wellFormed_nodes[OF assms(1,3)] by simp
  then have "pos t \<le> p" using wellFormed_pos_le_start[of K t] assms(5) by simp
  with assms(6) have "fullSpanContains t p" by (simp add: fullSpanContains_def)
  from getTokenAtPosition_loop_token[OF assms(1,3,4) this]
  have a: "getTokenAtPosition sourceFile p = t" by (simp add: getTokenAtPosition_def)
  have "textSpanContains t p" using assms(5,6) by (simp add: textSpanContains_def)
  from getNodeAtPosition_loop_token[OF assms(1-4) this]
  have b: "getNodeAtPosition sourceFile p = t" by (simp add: getNodeAtPosition_def)
  from a b show ?thesis by simp
qed

text \<open>
  The theorem at the sample document and offset \<open>11\<close>, the digit \<^verbatim>\<open>2\<close>. At offset
  \<open>10\<close>, the blank before it, the two resolvers do differ: rendered-span resolution
  stops at the argument list.
\<close>

theorem resolvers_agree_on_token_text_witness:
  "wellFormed sampleKinds sampleFile \<and> startsNested sampleFile \<and>
   tTwo \<in> set (nodes sampleFile) \<and> isToken sampleKinds tTwo \<and>
   getStart tTwo \<le> 11 \<and> 11 < getEnd tTwo \<and>
   getTokenAtPosition sampleFile 11 = getNodeAtPosition sampleFile 11 \<and>
   getNodeAtPosition sampleFile 11 = tTwo \<and>
   getNodeAtPosition sampleFile 10 = argList"
proof -
  have h1: "wellFormed sampleKinds sampleFile" by (simp add: sample_defs isToken_def)
  have h2: "startsNested sampleFile" by (simp add: sample_defs)
  have h3: "tTwo \<in> set (nodes sampleFile)" by (simp add: sample_defs)
  have h4: "isToken sampleKinds tTwo" by (simp add: sample_defs isToken_def)
  have h5: "getStart tTwo \<le> 11" by (simp add: sample_defs)
  have h6: "11 < getEnd tTwo" by (simp add: sample_defs)
  have d: "getNodeAtPosition sampleFile 10 = argList"
    by (simp add: getNodeAtPosition_def getNodeAtPosition_loop.simps sample_defs)
  from resolvers_agree_on_token_text[OF h1 h2 h3 h4 h5 h6] h1 h2 h3 h4 h5 h6 d
  show ?thesis by blast
qed

section \<open>Token boundary search\<close>

subsection \<open>Reachable tokens\<close>

lemma tokensOf_token: "isToken K n \<Longrightarrow> tokensOf K n = [n]"
  by (cases n) simp

lemma tokensOf_other:
  "\<not> isToken K n \<Longrightarrow>
   tokensOf K n = concat (map (tokensOf K) (filter (tokenBearing K) (getChildren n)))"
  by (cases n) simp

lemma tokensOf_cases:
  assumes "u \<in> set (tokensOf K n)"
  obtains (self) "isToken K n" "u = n"
    | (child) c where "\<not> isToken K n" "c \<in> set (getChildren n)" "tokenBearing K c"
        "u \<in> set (tokensOf K c)"
proof (cases "isToken K n")
  case True
  with assms self show ?thesis by (simp add: tokensOf_token)
next
  case False
  with assms obtain c where "c \<in> set (getChildren n)" "tokenBearing K c" "u \<in> set (tokensOf K c)"
    by (auto simp: tokensOf_other)
  with False child show ?thesis by blast
qed

lemma tokensOf_nodes:
  "u \<in> set (tokensOf K n) \<Longrightarrow>
   u \<in> set (nodes n) \<and> isToken K u \<and> (u = n \<or> tokenBearing K u)"
proof (induction n arbitrary: u rule: measure_induct_rule[of size])
  case (less n)
  from less.prems show ?case
  proof (cases rule: tokensOf_cases)
    case self
    then show ?thesis by (simp add: nodes_self)
  next
    case (child c)
    from less.IH[OF size_child[OF child(2)] child(4)] child(2,3)
    show ?thesis by (subst nodes_unfold) auto
  qed
qed

lemma nodes_child_subset:
  "c \<in> set (getChildren n) \<Longrightarrow> set (nodes c) \<subseteq> set (nodes n)"
  by (subst (2) nodes_unfold) auto

lemma nodeHasTokens_ExpressionStatement:
  "kind n = ExpressionStatement K \<Longrightarrow>
   nodeHasTokens K n = (case expression n of None \<Rightarrow> Inl TypeError | Some x \<Rightarrow> nodeHasTokens K x)"
  by (cases n) simp

lemma nodeHasTokens_other:
  "kind n \<noteq> ExpressionStatement K \<Longrightarrow>
   nodeHasTokens K n =
     (if kind n = EndOfFileToken K \<or> kind n = OmittedExpression K \<or> kind n = Missing K
      then Inr False else Inr (kind n \<noteq> SyntaxList K \<or> getChildCount n \<noteq> 0))"
  by (cases n) simp

subsection \<open>The steps of the next-token search\<close>

lemma findNextToken_find_token:
  "isToken K n \<Longrightarrow> pos n = getEnd t \<Longrightarrow> findNextToken_find K t n = Inr (Some n)"
  by (subst findNextToken_find.simps) simp

lemma findNextToken_find_other:
  "\<not> (isToken K n \<and> pos n = getEnd t) \<Longrightarrow>
   findNextToken_find K t n = findNextToken_loop K t n 0"
  by (subst findNextToken_find.simps) auto

lemma findNextToken_loop_end:
  "\<not> i < getChildCount n \<Longrightarrow> findNextToken_loop K t n i = Inr None"
  by (subst findNextToken_loop.simps) simp

lemma findNextToken_loop_noDive:
  "i < getChildCount n \<Longrightarrow> \<not> shouldDiveInChildNode t (getChildAt n i) \<Longrightarrow>
   findNextToken_loop K t n i = findNextToken_loop K t n (i + 1)"
  by (subst findNextToken_loop.simps) (auto simp: Let_def shouldDiveInChildNode_def)

lemma findNextToken_loop_error:
  "i < getChildCount n \<Longrightarrow> shouldDiveInChildNode t (getChildAt n i) \<Longrightarrow>
   nodeHasTokens K (getChildAt n i) = Inl e \<Longrightarrow> findNextToken_loop K t n i = Inl e"
  by (subst findNextToken_loop.simps) (auto simp: Let_def shouldDiveInChildNode_def)

lemma findNextToken_loop_noTokens:
  "i < getChildCount n \<Longrightarrow> nodeHasTokens K (getChildAt n i) = Inr False \<Longrightarrow>
   findNextToken_loop K t n i = findNextToken_loop K t n (i + 1)"
  by (subst findNextToken_loop.simps) (auto simp: Let_def shouldDiveInChildNode_def)

lemma findNextToken_loop_dive:
  "i < getChildCount n \<Longrightarrow> shouldDiveInChildNode t (getChildAt n i) \<Longrightarrow>
   nodeHasTokens K (getChildAt n i) = Inr True \<Longrightarrow>
   findNextToken_loop K t n i = findNextToken_find K t (getChildAt n i)"
  by (subst findNextToken_loop.simps) (auto simp: Let_def shouldDiveInChildNode_def)

lemma findNextToken_loop_cases:
  assumes "i < getChildCount n"
  obtains (skip) "findNextToken_loop K t n i = findNextToken_loop K t n (i + 1)"
      "\<not> (shouldDiveInChildNode t (getChildAt n i) \<and> tokenBearing K (getChildAt n i))"
    | (error) e where "findNextToken_loop K t n i = Inl e"
    | (dive) "shouldDiveInChildNode t (getChildAt n i)" "tokenBearing K (getChildAt n i)"
      "findNextToken_loop K t n i = findNextToken_find K t (getChildAt n i)"
proof (cases "shouldDiveInChildNode t (getChildAt n i)")
  case False
  with assms skip show ?thesis by (simp add: findNextToken_loop_noDive)
next
  case True
  show ?thesis
  proof (cases "nodeHasTokens K (getChildAt n i)")
    case (Inl e)
    with assms True error show ?thesis by (simp add: findNextToken_loop_error)
  next
    case (Inr b)
    show ?thesis
    proof (cases b)
      case True
      with Inr assms \<open>shouldDiveInChildNode t (getChildAt n i)\<close> dive show ?thesis
        by (simp add: findNextToken_loop_dive tokenBearing_def)
    next
      case False
      with Inr assms skip show ?thesis
        by (simp add: findNextToken_loop_noTokens tokenBearing_def)
    qed
  qed
qed

lemma findNextToken_loop_sound:
  assumes IH: "\<And>c u. c \<in> set (getChildren n) \<Longrightarrow> findNextToken_find K t c = Inr (Some u) \<Longrightarrow>
                 isToken K u \<and> pos u = getEnd t \<and> u \<in> set (nodes c) \<and> (u = c \<or> tokenBearing K u)"
  shows "findNextToken_loop K t n i = Inr (Some u) \<Longrightarrow>
         isToken K u \<and> pos u = getEnd t \<and> tokenBearing K u \<and>
         (\<exists>c \<in> set (getChildren n). u \<in> set (nodes c))"
proof (induction "getChildCount n - i" arbitrary: i)
  case 0
  then show ?case by (simp add: findNextToken_loop_end)
next
  case (Suc d)
  then have lt: "i < getChildCount n" by simp
  then show ?case
  proof (cases rule: findNextToken_loop_cases[where K = K and t = t])
    case skip
    with Suc.prems have "findNextToken_loop K t n (i + 1) = Inr (Some u)" by simp
    moreover have "d = getChildCount n - (i + 1)" using Suc.hyps(2) by simp
    ultimately show ?thesis by (rule Suc.hyps(1)[rotated])
  next
    case (error e)
    with Suc.prems show ?thesis by simp
  next
    case dive
    with Suc.prems have r: "findNextToken_find K t (getChildAt n i) = Inr (Some u)" by simp
    have cin: "getChildAt n i \<in> set (getChildren n)" using lt by simp
    from IH[OF cin r] dive(2) cin show ?thesis by blast
  qed
qed

lemma findNextToken_find_sound:
  "findNextToken_find K t n = Inr (Some u) \<Longrightarrow>
   isToken K u \<and> pos u = getEnd t \<and> u \<in> set (nodes n) \<and> (u = n \<or> tokenBearing K u)"
proof (induction n arbitrary: u rule: measure_induct_rule[of size])
  case (less n)
  show ?case
  proof (cases "isToken K n \<and> pos n = getEnd t")
    case True
    then have "findNextToken_find K t n = Inr (Some n)" by (simp add: findNextToken_find_token)
    with less.prems have "u = n" by simp
    with True show ?thesis by (simp add: nodes_self)
  next
    case False
    with less.prems have l: "findNextToken_loop K t n 0 = Inr (Some u)"
      by (simp add: findNextToken_find_other)
    have "isToken K u \<and> pos u = getEnd t \<and> tokenBearing K u \<and>
         (\<exists>c \<in> set (getChildren n). u \<in> set (nodes c))"
      using less.IH size_child l by (intro findNextToken_loop_sound[where i = 0]) auto
    then show ?thesis by (subst nodes_unfold) auto
  qed
qed


subsection \<open>The steps of the preceding-token search\<close>

lemma findRightmostToken_token: "isToken K n \<Longrightarrow> findRightmostToken K n = Inr (Some n)"
  by (subst findRightmostToken.simps) simp

lemma findRightmostToken_other:
  "\<not> isToken K n \<Longrightarrow>
   findRightmostToken K n = rightmostTokenBefore K (getChildren n) (getChildCount n)"
  by (subst findRightmostToken.simps) (simp add: rightmostTokenBefore_def Let_def)

lemma findPrecedingToken_find_token:
  "isToken K n \<Longrightarrow> findPrecedingToken_find K p n = Inr (Some n)"
  by (subst findPrecedingToken_find.simps) simp

lemma findPrecedingToken_find_other:
  "\<not> isToken K n \<Longrightarrow> findPrecedingToken_find K p n = findPrecedingToken_loop K p n 0"
  by (subst findPrecedingToken_find.simps) simp

lemma findPrecedingToken_loop_end:
  "\<not> i < getChildCount n \<Longrightarrow>
   findPrecedingToken_loop K p n i =
     (if kind n \<noteq> SourceFile K then Inl AssertionFailure
      else if getChildCount n \<noteq> 0
           then rightmostTokenBefore K (getChildren n) (getChildCount n)
      else Inr None)"
  by (subst findPrecedingToken_loop.simps) (simp add: rightmostTokenBefore_def Let_def)

lemma findPrecedingToken_loop_error:
  "i < getChildCount n \<Longrightarrow> nodeHasTokens K (getChildAt n i) = Inl e \<Longrightarrow>
   findPrecedingToken_loop K p n i = Inl e"
  by (subst findPrecedingToken_loop.simps) (simp add: Let_def)

lemma findPrecedingToken_loop_noTokens:
  "i < getChildCount n \<Longrightarrow> nodeHasTokens K (getChildAt n i) = Inr False \<Longrightarrow>
   findPrecedingToken_loop K p n i = findPrecedingToken_loop K p n (i + 1)"
  by (subst findPrecedingToken_loop.simps) (simp add: Let_def)

lemma findPrecedingToken_loop_past:
  "i < getChildCount n \<Longrightarrow> nodeHasTokens K (getChildAt n i) = Inr True \<Longrightarrow>
   \<not> p < getEnd (getChildAt n i) \<Longrightarrow>
   findPrecedingToken_loop K p n i = findPrecedingToken_loop K p n (i + 1)"
  by (subst findPrecedingToken_loop.simps) (simp add: Let_def)

lemma findPrecedingToken_loop_previous:
  "i < getChildCount n \<Longrightarrow> nodeHasTokens K (getChildAt n i) = Inr True \<Longrightarrow>
   p < getEnd (getChildAt n i) \<Longrightarrow> getStart (getChildAt n i) \<ge> p \<Longrightarrow>
   findPrecedingToken_loop K p n i = rightmostTokenBefore K (getChildren n) i"
  by (subst findPrecedingToken_loop.simps) (simp add: rightmostTokenBefore_def Let_def)

lemma findPrecedingToken_loop_into:
  "i < getChildCount n \<Longrightarrow> nodeHasTokens K (getChildAt n i) = Inr True \<Longrightarrow>
   p < getEnd (getChildAt n i) \<Longrightarrow> getStart (getChildAt n i) < p \<Longrightarrow>
   findPrecedingToken_loop K p n i = findPrecedingToken_find K p (getChildAt n i)"
  by (subst findPrecedingToken_loop.simps) (simp add: Let_def)

lemma findRightmostChildNodeWithTokens_sound:
  "findRightmostChildNodeWithTokens K cs i = Inr (Some c) \<Longrightarrow> c \<in> set cs \<and> tokenBearing K c"
  by (induction i) (auto simp: tokenBearing_def split: if_splits sum.splits bool.splits)

lemma findRightmostToken_sound:
  "findRightmostToken K n = Inr (Some u) \<Longrightarrow>
   isToken K u \<and> u \<in> set (nodes n) \<and> (u = n \<or> tokenBearing K u)"
proof (induction n arbitrary: u rule: measure_induct_rule[of size])
  case (less n)
  show ?case
  proof (cases "isToken K n")
    case True
    with less.prems have "u = n" by (simp add: findRightmostToken_token)
    with True show ?thesis by (simp add: nodes_self)
  next
    case False
    with less.prems have r: "rightmostTokenBefore K (getChildren n) (getChildCount n) = Inr (Some u)"
      by (simp add: findRightmostToken_other)
    then obtain c where c: "findRightmostChildNodeWithTokens K (getChildren n) (getChildCount n) = Inr (Some c)"
      "findRightmostToken K c = Inr (Some u)"
      by (auto simp: rightmostTokenBefore_def split: sum.splits option.splits)
    from findRightmostChildNodeWithTokens_sound[OF c(1)]
    have cin: "c \<in> set (getChildren n)" and tb: "tokenBearing K c" by simp_all
    from less.IH[OF size_child[OF cin] c(2)] tb
    have "isToken K u \<and> u \<in> set (nodes c) \<and> tokenBearing K u" by auto
    with cin show ?thesis by (subst nodes_unfold) auto
  qed
qed

lemma rightmostTokenBefore_sound:
  "rightmostTokenBefore K cs i = Inr (Some u) \<Longrightarrow>
   isToken K u \<and> tokenBearing K u \<and> (\<exists>c \<in> set cs. u \<in> set (nodes c))"
proof -
  assume "rightmostTokenBefore K cs i = Inr (Some u)"
  then obtain c where c: "findRightmostChildNodeWithTokens K cs i = Inr (Some c)"
      "findRightmostToken K c = Inr (Some u)"
    by (auto simp: rightmostTokenBefore_def split: sum.splits option.splits)
  from findRightmostChildNodeWithTokens_sound[OF c(1)] findRightmostToken_sound[OF c(2)]
  show ?thesis by auto
qed

lemma findPrecedingToken_loop_sound:
  assumes IH: "\<And>c u. c \<in> set (getChildren n) \<Longrightarrow> findPrecedingToken_find K p c = Inr (Some u) \<Longrightarrow>
                 isToken K u \<and> u \<in> set (nodes c) \<and> (u = c \<or> tokenBearing K u)"
  shows "findPrecedingToken_loop K p n i = Inr (Some u) \<Longrightarrow>
         isToken K u \<and> tokenBearing K u \<and> (\<exists>c \<in> set (getChildren n). u \<in> set (nodes c))"
proof (induction "getChildCount n - i" arbitrary: i)
  case 0
  then have "\<not> i < getChildCount n" by simp
  from findPrecedingToken_loop_end[OF this, of K p] 0(2)
  have "rightmostTokenBefore K (getChildren n) (getChildCount n) = Inr (Some u)"
    by (auto split: if_splits)
  then show ?case by (rule rightmostTokenBefore_sound)
next
  case (Suc d)
  then have lt: "i < getChildCount n" by simp
  have next_i: "d = getChildCount n - (i + 1)" using Suc.hyps(2) by simp
  let ?c = "getChildAt n i"
  have cin: "?c \<in> set (getChildren n)" using lt by simp
  show ?case
  proof (cases "nodeHasTokens K ?c")
    case (Inl e)
    with Suc.prems lt show ?thesis by (simp add: findPrecedingToken_loop_error)
  next
    case (Inr b)
    show ?thesis
    proof (cases b)
      case False
      with Inr lt Suc.prems have "findPrecedingToken_loop K p n (i + 1) = Inr (Some u)"
        by (simp add: findPrecedingToken_loop_noTokens)
      with next_i show ?thesis by (rule Suc.hyps(1))
    next
      case True
      with Inr have tb: "nodeHasTokens K ?c = Inr True" by simp
      show ?thesis
      proof (cases "p < getEnd ?c")
        case False
        with tb lt Suc.prems have "findPrecedingToken_loop K p n (i + 1) = Inr (Some u)"
          by (simp add: findPrecedingToken_loop_past)
        with next_i show ?thesis by (rule Suc.hyps(1))
      next
        case inside: True
        show ?thesis
        proof (cases "getStart ?c \<ge> p")
          case True
          with tb lt inside Suc.prems have "rightmostTokenBefore K (getChildren n) i = Inr (Some u)"
            by (simp add: findPrecedingToken_loop_previous)
          then show ?thesis by (rule rightmostTokenBefore_sound)
        next
          case False
          with tb lt inside Suc.prems have "findPrecedingToken_find K p ?c = Inr (Some u)"
            by (simp add: findPrecedingToken_loop_into)
          from IH[OF cin this] tb cin show ?thesis by (auto simp: tokenBearing_def)
        qed
      qed
    qed
  qed
qed

lemma findPrecedingToken_find_sound:
  "findPrecedingToken_find K p n = Inr (Some u) \<Longrightarrow>
   isToken K u \<and> u \<in> set (nodes n) \<and> (u = n \<or> tokenBearing K u)"
proof (induction n arbitrary: u rule: measure_induct_rule[of size])
  case (less n)
  show ?case
  proof (cases "isToken K n")
    case True
    with less.prems have "u = n" by (simp add: findPrecedingToken_find_token)
    with True show ?thesis by (simp add: nodes_self)
  next
    case False
    with less.prems have l: "findPrecedingToken_loop K p n 0 = Inr (Some u)"
      by (simp add: findPrecedingToken_find_other)
    have "isToken K u \<and> tokenBearing K u \<and> (\<exists>c \<in> set (getChildren n). u \<in> set (nodes c))"
      using less.IH size_child l by (intro findPrecedingToken_loop_sound[where i = 0]) auto
    then show ?thesis by (subst nodes_unfold) auto
  qed
qed

subsection \<open>Nodes that the searches skip\<close>

lemma enteredNodes_unfold:
  "enteredNodes K n = n # concat (map (enteredNodes K) (filter (tokenBearing K) (getChildren n)))"
  by (cases n) simp

lemma enteredNodes_self: "n \<in> set (enteredNodes K n)"
  by (cases n) simp

lemma enteredNodes_child:
  "c \<in> set (getChildren n) \<Longrightarrow> tokenBearing K c \<Longrightarrow>
   set (enteredNodes K c) \<subseteq> set (enteredNodes K n)"
  by (subst (2) enteredNodes_unfold) auto

lemma enteredNodes_tokenBearing:
  "c \<in> set (enteredNodes K n) \<Longrightarrow> c = n \<or> tokenBearing K c"
proof (induction n rule: measure_induct_rule[of size])
  case (less n)
  from less.prems have "c = n \<or> (\<exists>d \<in> set (getChildren n). tokenBearing K d \<and> c \<in> set (enteredNodes K d))"
    by (subst (asm) enteredNodes_unfold) auto
  then show ?case
  proof
    assume "c = n" then show ?thesis by simp
  next
    assume "\<exists>d \<in> set (getChildren n). tokenBearing K d \<and> c \<in> set (enteredNodes K d)"
    then obtain d where d: "d \<in> set (getChildren n)" "tokenBearing K d" "c \<in> set (enteredNodes K d)"
      by blast
    from less.IH[OF size_child[OF d(1)] d(3)] d(2) show ?thesis by auto
  qed
qed

lemma findNextToken_loop_entered:
  assumes IH: "\<And>c u. c \<in> set (getChildren n) \<Longrightarrow> findNextToken_find K t c = Inr (Some u) \<Longrightarrow>
                 u \<in> set (enteredNodes K c)"
  shows "findNextToken_loop K t n i = Inr (Some u) \<Longrightarrow> u \<in> set (enteredNodes K n)"
proof (induction "getChildCount n - i" arbitrary: i)
  case 0
  then show ?case by (simp add: findNextToken_loop_end)
next
  case (Suc d)
  then have lt: "i < getChildCount n" by simp
  then show ?case
  proof (cases rule: findNextToken_loop_cases[where K = K and t = t])
    case skip
    with Suc.prems have "findNextToken_loop K t n (i + 1) = Inr (Some u)" by simp
    moreover have "d = getChildCount n - (i + 1)" using Suc.hyps(2) by simp
    ultimately show ?thesis by (rule Suc.hyps(1)[rotated])
  next
    case (error e)
    with Suc.prems show ?thesis by simp
  next
    case dive
    with Suc.prems have r: "findNextToken_find K t (getChildAt n i) = Inr (Some u)" by simp
    have cin: "getChildAt n i \<in> set (getChildren n)" using lt by simp
    from IH[OF cin r] enteredNodes_child[OF cin dive(2)] show ?thesis by blast
  qed
qed

lemma findNextToken_find_entered:
  "findNextToken_find K t n = Inr (Some u) \<Longrightarrow> u \<in> set (enteredNodes K n)"
proof (induction n arbitrary: u rule: measure_induct_rule[of size])
  case (less n)
  show ?case
  proof (cases "isToken K n \<and> pos n = getEnd t")
    case True
    then have "findNextToken_find K t n = Inr (Some n)" by (simp add: findNextToken_find_token)
    with less.prems show ?thesis by (simp add: enteredNodes_self)
  next
    case False
    with less.prems have l: "findNextToken_loop K t n 0 = Inr (Some u)"
      by (simp add: findNextToken_find_other)
    show ?thesis
    proof (rule findNextToken_loop_entered[where i = 0, OF _ l])
      fix c u assume c: "c \<in> set (getChildren n)" "findNextToken_find K t c = Inr (Some u)"
      from less.IH[OF size_child[OF c(1)] c(2)] show "u \<in> set (enteredNodes K c)" .
    qed
  qed
qed

lemma findRightmostToken_entered:
  "findRightmostToken K n = Inr (Some u) \<Longrightarrow> u \<in> set (enteredNodes K n)"
proof (induction n arbitrary: u rule: measure_induct_rule[of size])
  case (less n)
  show ?case
  proof (cases "isToken K n")
    case True
    with less.prems show ?thesis by (simp add: findRightmostToken_token enteredNodes_self)
  next
    case False
    with less.prems have "rightmostTokenBefore K (getChildren n) (getChildCount n) = Inr (Some u)"
      by (simp add: findRightmostToken_other)
    then obtain c where c: "findRightmostChildNodeWithTokens K (getChildren n) (getChildCount n) = Inr (Some c)"
      "findRightmostToken K c = Inr (Some u)"
      by (auto simp: rightmostTokenBefore_def split: sum.splits option.splits)
    from findRightmostChildNodeWithTokens_sound[OF c(1)]
    have cin: "c \<in> set (getChildren n)" and tb: "tokenBearing K c" by simp_all
    from less.IH[OF size_child[OF cin] c(2)] enteredNodes_child[OF cin tb] show ?thesis by blast
  qed
qed

lemma rightmostTokenBefore_entered:
  "rightmostTokenBefore K (getChildren n) i = Inr (Some u) \<Longrightarrow> u \<in> set (enteredNodes K n)"
proof -
  assume "rightmostTokenBefore K (getChildren n) i = Inr (Some u)"
  then obtain c where c: "findRightmostChildNodeWithTokens K (getChildren n) i = Inr (Some c)"
      "findRightmostToken K c = Inr (Some u)"
    by (auto simp: rightmostTokenBefore_def split: sum.splits option.splits)
  from findRightmostChildNodeWithTokens_sound[OF c(1)]
  have cin: "c \<in> set (getChildren n)" and tb: "tokenBearing K c" by simp_all
  from findRightmostToken_entered[OF c(2)] enteredNodes_child[OF cin tb] show ?thesis by blast
qed

lemma findPrecedingToken_loop_entered:
  assumes IH: "\<And>c u. c \<in> set (getChildren n) \<Longrightarrow> findPrecedingToken_find K p c = Inr (Some u) \<Longrightarrow>
                 u \<in> set (enteredNodes K c)"
  shows "findPrecedingToken_loop K p n i = Inr (Some u) \<Longrightarrow> u \<in> set (enteredNodes K n)"
proof (induction "getChildCount n - i" arbitrary: i)
  case 0
  then have "\<not> i < getChildCount n" by simp
  from findPrecedingToken_loop_end[OF this, of K p] 0(2)
  have "rightmostTokenBefore K (getChildren n) (getChildCount n) = Inr (Some u)"
    by (auto split: if_splits)
  then show ?case by (rule rightmostTokenBefore_entered)
next
  case (Suc d)
  then have lt: "i < getChildCount n" by simp
  have next_i: "d = getChildCount n - (i + 1)" using Suc.hyps(2) by simp
  let ?c = "getChildAt n i"
  have cin: "?c \<in> set (getChildren n)" using lt by simp
  show ?case
  proof (cases "nodeHasTokens K ?c")
    case (Inl e)
    with Suc.prems lt show ?thesis by (simp add: findPrecedingToken_loop_error)
  next
    case (Inr b)
    show ?thesis
    proof (cases b)
      case False
      with Inr lt Suc.prems have "findPrecedingToken_loop K p n (i + 1) = Inr (Some u)"
        by (simp add: findPrecedingToken_loop_noTokens)
      with next_i show ?thesis by (rule Suc.hyps(1))
    next
      case True
      with Inr have tb: "nodeHasTokens K ?c = Inr True" by simp
      show ?thesis
      proof (cases "p < getEnd ?c")
        case False
        with tb lt Suc.prems have "findPrecedingToken_loop K p n (i + 1) = Inr (Some u)"
          by (simp add: findPrecedingToken_loop_past)
        with next_i show ?thesis by (rule Suc.hyps(1))
      next
        case inside: True
        show ?thesis
        proof (cases "getStart ?c \<ge> p")
          case True
          with tb lt inside Suc.prems have "rightmostTokenBefore K (getChildren n) i = Inr (Some u)"
            by (simp add: findPrecedingToken_loop_previous)
          then show ?thesis by (rule rightmostTokenBefore_entered)
        next
          case False
          with tb lt inside Suc.prems have "findPrecedingToken_find K p ?c = Inr (Some u)"
            by (simp add: findPrecedingToken_loop_into)
          from IH[OF cin this] enteredNodes_child[OF cin] tb show ?thesis
            by (auto simp: tokenBearing_def)
        qed
      qed
    qed
  qed
qed

lemma findPrecedingToken_find_entered:
  "findPrecedingToken_find K p n = Inr (Some u) \<Longrightarrow> u \<in> set (enteredNodes K n)"
proof (induction n arbitrary: u rule: measure_induct_rule[of size])
  case (less n)
  show ?case
  proof (cases "isToken K n")
    case True
    with less.prems show ?thesis by (simp add: findPrecedingToken_find_token enteredNodes_self)
  next
    case False
    with less.prems have l: "findPrecedingToken_loop K p n 0 = Inr (Some u)"
      by (simp add: findPrecedingToken_find_other)
    show ?thesis
    proof (rule findPrecedingToken_loop_entered[where i = 0, OF _ l])
      fix c u assume c: "c \<in> set (getChildren n)" "findPrecedingToken_find K p c = Inr (Some u)"
      from less.IH[OF size_child[OF c(1)] c(2)] show "u \<in> set (enteredNodes K c)" .
    qed
  qed
qed

lemma findRightmostChildNodeWithTokens_skip:
  "i < length cs \<Longrightarrow> nodeHasTokens K (cs ! i) = Inr False \<Longrightarrow>
   findRightmostChildNodeWithTokens K cs (Suc i) = findRightmostChildNodeWithTokens K cs i"
  by simp

text \<open>
  Claim C10. \<^verbatim>\<open>nodeHasTokens\<close> gives an expression statement the answer of its
  expression. Where \<^verbatim>\<open>nodeHasTokens\<close> is false for child \<open>i\<close> of a node, each loop
  of the two searches passes over that child: the scan of \<^verbatim>\<open>findPrecedingToken\<close> and
  the scan of \<^verbatim>\<open>findNextToken\<close> continue at \<open>i + 1\<close> with nothing else changed, and
  the backward scan for a candidate continues below \<open>i\<close>. A node that either search
  returns is a token among the entered nodes of the start node, which are reached through
  token-bearing children only; so it is the start node itself or a node for which
  \<^verbatim>\<open>nodeHasTokens\<close> is true: never an expression statement whose expression bears no
  tokens, an end-of-file token, an omitted or missing placeholder, or a list group
  without children, and never a node below one of these. The kinds are members of one
  enumeration, so \<open>ExpressionStatement\<close> differs from the other four.
\<close>

theorem searches_skip_nodes_without_tokens:
  assumes enum: "ExpressionStatement K \<notin>
                   {EndOfFileToken K, OmittedExpression K, Missing K, SyntaxList K}"
  shows "(kind n = ExpressionStatement K \<longrightarrow>
            nodeHasTokens K n =
              (case expression n of None \<Rightarrow> Inl TypeError | Some x \<Rightarrow> nodeHasTokens K x)) \<and>
         (i < getChildCount m \<and> nodeHasTokens K (getChildAt m i) = Inr False \<longrightarrow>
            findPrecedingToken_loop K p m i = findPrecedingToken_loop K p m (i + 1) \<and>
            findNextToken_loop K t m i = findNextToken_loop K t m (i + 1) \<and>
            findRightmostChildNodeWithTokens K (getChildren m) (Suc i) =
              findRightmostChildNodeWithTokens K (getChildren m) i) \<and>
         (findPrecedingToken K p start = Inr (Some r) \<or>
          findNextToken K t start = Inr (Some r) \<longrightarrow>
            isToken K r \<and> r \<in> set (enteredNodes K start) \<and>
            (r = start \<or>
               nodeHasTokens K r = Inr True \<and>
               (kind r = ExpressionStatement K \<longrightarrow>
                  (\<exists>x. expression r = Some x \<and> nodeHasTokens K x = Inr True)) \<and>
               kind r \<noteq> EndOfFileToken K \<and> kind r \<noteq> OmittedExpression K \<and>
               kind r \<noteq> Missing K \<and> \<not> (kind r = SyntaxList K \<and> getChildCount r = 0))) \<and>
         (\<forall>c \<in> set (enteredNodes K start). c = start \<or> nodeHasTokens K c = Inr True)"
proof -
  have gate: "kind n = ExpressionStatement K \<longrightarrow>
            nodeHasTokens K n =
              (case expression n of None \<Rightarrow> Inl TypeError | Some x \<Rightarrow> nodeHasTokens K x)"
    using nodeHasTokens_ExpressionStatement by blast
  have skip: "findPrecedingToken_loop K p m i = findPrecedingToken_loop K p m (i + 1) \<and>
            findNextToken_loop K t m i = findNextToken_loop K t m (i + 1) \<and>
            findRightmostChildNodeWithTokens K (getChildren m) (Suc i) =
              findRightmostChildNodeWithTokens K (getChildren m) i"
    if "i < getChildCount m \<and> nodeHasTokens K (getChildAt m i) = Inr False"
    using that findPrecedingToken_loop_noTokens[of i m K p] findNextToken_loop_noTokens[of i m K t]
      findRightmostChildNodeWithTokens_skip[of i "getChildren m" K]
    by blast
  have facts: "nodeHasTokens K r = Inr True \<and>
               (kind r = ExpressionStatement K \<longrightarrow>
                  (\<exists>x. expression r = Some x \<and> nodeHasTokens K x = Inr True)) \<and>
               kind r \<noteq> EndOfFileToken K \<and> kind r \<noteq> OmittedExpression K \<and>
               kind r \<noteq> Missing K \<and> \<not> (kind r = SyntaxList K \<and> getChildCount r = 0)"
    if tb: "tokenBearing K r" for r
  proof -
    have a: "nodeHasTokens K r = Inr True" using tb by (simp add: tokenBearing_def)
    have b: "\<exists>x. expression r = Some x \<and> nodeHasTokens K x = Inr True"
      if "kind r = ExpressionStatement K"
      using a nodeHasTokens_ExpressionStatement[OF that] by (cases "expression r") auto
    have c: "kind r \<noteq> EndOfFileToken K \<and> kind r \<noteq> OmittedExpression K \<and> kind r \<noteq> Missing K \<and>
           \<not> (kind r = SyntaxList K \<and> getChildCount r = 0)"
    proof (cases "kind r = ExpressionStatement K")
      case True
      with enum show ?thesis by auto
    next
      case False
      from a nodeHasTokens_other[OF False] show ?thesis by (auto split: if_splits)
    qed
    from a b c show ?thesis by blast
  qed
  have found: "isToken K r \<and> r \<in> set (enteredNodes K start) \<and> (r = start \<or> tokenBearing K r)"
    if "findPrecedingToken K p start = Inr (Some r) \<or> findNextToken K t start = Inr (Some r)"
    using that
  proof
    assume "findPrecedingToken K p start = Inr (Some r)"
    then have f: "findPrecedingToken_find K p start = Inr (Some r)"
      by (simp add: findPrecedingToken_def)
    from findPrecedingToken_find_sound[OF f] findPrecedingToken_find_entered[OF f]
    show ?thesis by simp
  next
    assume "findNextToken K t start = Inr (Some r)"
    then have f: "findNextToken_find K t start = Inr (Some r)" by (simp add: findNextToken_def)
    from findNextToken_find_sound[OF f] findNextToken_find_entered[OF f]
    show ?thesis by simp
  qed
  have entered: "\<forall>c \<in> set (enteredNodes K start). c = start \<or> nodeHasTokens K c = Inr True"
    using enteredNodes_tokenBearing[of _ K start] by (auto simp: tokenBearing_def)
  show ?thesis
  proof (intro conjI)
    show "kind n = ExpressionStatement K \<longrightarrow>
            nodeHasTokens K n =
              (case expression n of None \<Rightarrow> Inl TypeError | Some x \<Rightarrow> nodeHasTokens K x)"
      by (rule gate)
    show "i < getChildCount m \<and> nodeHasTokens K (getChildAt m i) = Inr False \<longrightarrow>
            findPrecedingToken_loop K p m i = findPrecedingToken_loop K p m (i + 1) \<and>
            findNextToken_loop K t m i = findNextToken_loop K t m (i + 1) \<and>
            findRightmostChildNodeWithTokens K (getChildren m) (Suc i) =
              findRightmostChildNodeWithTokens K (getChildren m) i"
      using skip by (rule impI)
    show "findPrecedingToken K p start = Inr (Some r) \<or>
          findNextToken K t start = Inr (Some r) \<longrightarrow>
            isToken K r \<and> r \<in> set (enteredNodes K start) \<and>
            (r = start \<or>
               nodeHasTokens K r = Inr True \<and>
               (kind r = ExpressionStatement K \<longrightarrow>
                  (\<exists>x. expression r = Some x \<and> nodeHasTokens K x = Inr True)) \<and>
               kind r \<noteq> EndOfFileToken K \<and> kind r \<noteq> OmittedExpression K \<and>
               kind r \<noteq> Missing K \<and> \<not> (kind r = SyntaxList K \<and> getChildCount r = 0))"
    proof
      assume h: "findPrecedingToken K p start = Inr (Some r) \<or>
                 findNextToken K t start = Inr (Some r)"
      from found[OF h] have f: "isToken K r" "r \<in> set (enteredNodes K start)"
        "r = start \<or> tokenBearing K r" by simp_all
      from f(3) facts[of r] have "r = start \<or>
               nodeHasTokens K r = Inr True \<and>
               (kind r = ExpressionStatement K \<longrightarrow>
                  (\<exists>x. expression r = Some x \<and> nodeHasTokens K x = Inr True)) \<and>
               kind r \<noteq> EndOfFileToken K \<and> kind r \<noteq> OmittedExpression K \<and>
               kind r \<noteq> Missing K \<and> \<not> (kind r = SyntaxList K \<and> getChildCount r = 0)"
        by (elim disjE) (rule disjI1, assumption, rule disjI2, simp)
      with f(1,2) show "isToken K r \<and> r \<in> set (enteredNodes K start) \<and>
            (r = start \<or>
               nodeHasTokens K r = Inr True \<and>
               (kind r = ExpressionStatement K \<longrightarrow>
                  (\<exists>x. expression r = Some x \<and> nodeHasTokens K x = Inr True)) \<and>
               kind r \<noteq> EndOfFileToken K \<and> kind r \<noteq> OmittedExpression K \<and>
               kind r \<noteq> Missing K \<and> \<not> (kind r = SyntaxList K \<and> getChildCount r = 0))"
        by (intro conjI)
    qed
    show "\<forall>c \<in> set (enteredNodes K start). c = start \<or> nodeHasTokens K c = Inr True"
      by (rule entered)
  qed
qed

text \<open>
  The theorem at two trees. In the document \<^verbatim>\<open>x y\<close> the second statement has a missing
  expression: both scans of the statement list pass over it, the token after \<^verbatim>\<open>x\<close> is
  \<^verbatim>\<open>y\<close>, the token before offset \<open>2\<close> is \<^verbatim>\<open>x\<close>, and neither the statement nor its
  placeholder is entered. In the block \<^verbatim>\<open>{;}\<close> the only statement has a missing
  expression and a semicolon: the scan passes over the statement, so no token follows the
  opening brace and the semicolon is not entered.
\<close>

theorem searches_skip_nodes_without_tokens_witness:
  "ExpressionStatement sampleKinds \<notin>
     {EndOfFileToken sampleKinds, OmittedExpression sampleKinds, Missing sampleKinds,
      SyntaxList sampleKinds} \<and>
   getChildAt wList 1 = wStmtM \<and> kind wStmtM = ExpressionStatement sampleKinds \<and>
   expression wStmtM = Some wMissing \<and> nodeHasTokens sampleKinds wStmtM = Inr False \<and>
   findPrecedingToken_loop sampleKinds 2 wList 1 = findPrecedingToken_loop sampleKinds 2 wList 2 \<and>
   findNextToken_loop sampleKinds wX wList 1 = findNextToken_loop sampleKinds wX wList 2 \<and>
   findPrecedingToken sampleKinds 2 wFile = Inr (Some wX) \<and>
   findNextToken sampleKinds wX wFile = Inr (Some wY) \<and>
   wX \<in> set (enteredNodes sampleKinds wFile) \<and> wY \<in> set (enteredNodes sampleKinds wFile) \<and>
   nodeHasTokens sampleKinds wX = Inr True \<and> nodeHasTokens sampleKinds wY = Inr True \<and>
   wStmtM \<notin> set (enteredNodes sampleKinds wFile) \<and>
   wMissing \<notin> set (enteredNodes sampleKinds wFile) \<and>
   getChildAt bList 0 = bStmt \<and> kind bStmt = ExpressionStatement sampleKinds \<and>
   expression bStmt = Some bMissing \<and> bSemi \<in> set (getChildren bStmt) \<and>
   isToken sampleKinds bSemi \<and> pos bSemi = getEnd bOpen \<and>
   nodeHasTokens sampleKinds bStmt = Inr False \<and>
   findNextToken_loop sampleKinds bOpen bList 0 = findNextToken_loop sampleKinds bOpen bList 1 \<and>
   findNextToken sampleKinds bOpen block = Inr None \<and>
   bStmt \<notin> set (enteredNodes sampleKinds block) \<and>
   bSemi \<notin> set (enteredNodes sampleKinds block)"
proof -
  have h1: "ExpressionStatement sampleKinds \<notin>
     {EndOfFileToken sampleKinds, OmittedExpression sampleKinds, Missing sampleKinds,
      SyntaxList sampleKinds}" by (simp add: sampleKinds_def)
  have child: "getChildAt wList 1 = wStmtM" by (simp add: w_defs)
  have stmt: "kind wStmtM = ExpressionStatement sampleKinds" "expression wStmtM = Some wMissing"
    by (simp_all add: w_defs)
  have missing: "nodeHasTokens sampleKinds wMissing = Inr False" by (simp add: w_defs)
  have prec: "findPrecedingToken sampleKinds 2 wFile = Inr (Some wX)"
    by (simp add: findPrecedingToken_def findPrecedingToken_find.simps
        findPrecedingToken_loop.simps findRightmostToken.simps isToken_def w_defs)
  have nxt: "findNextToken sampleKinds wX wFile = Inr (Some wY)"
    by (simp add: findNextToken_def findNextToken_find.simps findNextToken_loop.simps
        isToken_def w_defs)
  have ne: "wX \<noteq> wFile" "wY \<noteq> wFile" "wStmtM \<noteq> wFile" "wMissing \<noteq> wFile"
    by (simp_all add: w_defs)
  note at_prec = searches_skip_nodes_without_tokens[OF h1,
      where n = wStmtM and m = wList and i = 1 and p = 2 and t = wX and start = wFile and r = wX]
  note at_next = searches_skip_nodes_without_tokens[OF h1,
      where n = wStmtM and m = wList and i = 1 and p = 2 and t = wX and start = wFile and r = wY]
  from at_prec stmt missing have gate: "nodeHasTokens sampleKinds wStmtM = Inr False" by simp
  have idx: "1 < getChildCount wList" by (simp add: w_defs)
  from at_prec idx child gate
  have skip: "findPrecedingToken_loop sampleKinds 2 wList 1 =
              findPrecedingToken_loop sampleKinds 2 wList 2"
    "findNextToken_loop sampleKinds wX wList 1 = findNextToken_loop sampleKinds wX wList 2"
    by (simp_all add: numeral_2_eq_2)
  from at_prec prec ne(1)
  have rx: "wX \<in> set (enteredNodes sampleKinds wFile)" "nodeHasTokens sampleKinds wX = Inr True"
    by simp_all
  from at_next nxt ne(2)
  have ry: "wY \<in> set (enteredNodes sampleKinds wFile)" "nodeHasTokens sampleKinds wY = Inr True"
    by simp_all
  from at_prec have all: "\<forall>c \<in> set (enteredNodes sampleKinds wFile).
      c = wFile \<or> nodeHasTokens sampleKinds c = Inr True" by blast
  with ne(3,4) gate missing
  have out: "wStmtM \<notin> set (enteredNodes sampleKinds wFile)"
    "wMissing \<notin> set (enteredNodes sampleKinds wFile)" by auto
  have bchild: "getChildAt bList 0 = bStmt" by (simp add: block_defs)
  have bstmt: "kind bStmt = ExpressionStatement sampleKinds" "expression bStmt = Some bMissing"
    "bSemi \<in> set (getChildren bStmt)" "isToken sampleKinds bSemi" "pos bSemi = getEnd bOpen"
    by (simp_all add: block_defs isToken_def)
  have bmissing: "nodeHasTokens sampleKinds bMissing = Inr False" by (simp add: block_defs)
  have bnxt: "findNextToken sampleKinds bOpen block = Inr None"
    by (simp add: findNextToken_def findNextToken_find.simps findNextToken_loop.simps
        isToken_def block_defs)
  note at_block = searches_skip_nodes_without_tokens[OF h1,
      where n = bStmt and m = bList and i = 0 and p = 2 and t = bOpen and start = block
        and r = bSemi]
  from at_block bstmt(1,2) bmissing have bgate: "nodeHasTokens sampleKinds bStmt = Inr False"
    by simp
  have bidx: "0 < getChildCount bList" by (simp add: block_defs)
  from at_block bidx bchild bgate
  have bskip: "findNextToken_loop sampleKinds bOpen bList 0 =
               findNextToken_loop sampleKinds bOpen bList 1" by simp
  from at_block have ball: "\<forall>c \<in> set (enteredNodes sampleKinds block).
      c = block \<or> nodeHasTokens sampleKinds c = Inr True" by blast
  have "bStmt \<noteq> block" by (simp add: block_defs)
  with ball bgate have bout: "bStmt \<notin> set (enteredNodes sampleKinds block)" by auto
  have bsemi: "bSemi \<notin> set (enteredNodes sampleKinds block)"
    by (simp add: block_defs tokenBearing_def)
  from h1 child stmt gate skip prec nxt rx ry out bchild bstmt bgate bskip bnxt bout bsemi
  show ?thesis by blast
qed

subsection \<open>The next token\<close>

lemma findNextToken_loop_reach:
  assumes IH: "\<And>c u. c \<in> set (getChildren n) \<Longrightarrow> findNextToken_find K t c = Inr (Some u) \<Longrightarrow>
                 u \<in> set (tokensOf K c) \<and> pos u = getEnd t"
  shows "findNextToken_loop K t n i = Inr (Some u) \<Longrightarrow>
         pos u = getEnd t \<and>
         (\<exists>c \<in> set (getChildren n). tokenBearing K c \<and> u \<in> set (tokensOf K c))"
proof (induction "getChildCount n - i" arbitrary: i)
  case 0
  then show ?case by (simp add: findNextToken_loop_end)
next
  case (Suc d)
  then have lt: "i < getChildCount n" by simp
  then show ?case
  proof (cases rule: findNextToken_loop_cases[where K = K and t = t])
    case skip
    with Suc.prems have "findNextToken_loop K t n (i + 1) = Inr (Some u)" by simp
    moreover have "d = getChildCount n - (i + 1)" using Suc.hyps(2) by simp
    ultimately show ?thesis by (rule Suc.hyps(1)[rotated])
  next
    case (error e)
    with Suc.prems show ?thesis by simp
  next
    case dive
    with Suc.prems have r: "findNextToken_find K t (getChildAt n i) = Inr (Some u)" by simp
    have cin: "getChildAt n i \<in> set (getChildren n)" using lt by simp
    from IH[OF cin r] dive(2) cin show ?thesis by blast
  qed
qed

lemma findNextToken_find_reach:
  "wellFormed K n \<Longrightarrow> findNextToken_find K t n = Inr (Some u) \<Longrightarrow>
   u \<in> set (tokensOf K n) \<and> pos u = getEnd t"
proof (induction n arbitrary: u rule: measure_induct_rule[of size])
  case (less n)
  show ?case
  proof (cases "isToken K n")
    case True
    then have leaf: "getChildren n = []" using less.prems(1) by (rule wellFormed_token_leaf[rotated])
    show ?thesis
    proof (cases "pos n = getEnd t")
      case True
      with \<open>isToken K n\<close> less.prems(2) have "u = n" by (simp add: findNextToken_find_token)
      with True \<open>isToken K n\<close> show ?thesis by (simp add: tokensOf_token)
    next
      case False
      then have "findNextToken_find K t n = findNextToken_loop K t n 0"
        by (simp add: findNextToken_find_other)
      also have "\<dots> = Inr None" using leaf by (simp add: findNextToken_loop_end)
      finally show ?thesis using less.prems(2) by simp
    qed
  next
    case False
    with less.prems have l: "findNextToken_loop K t n 0 = Inr (Some u)"
      by (simp add: findNextToken_find_other)
    have "pos u = getEnd t \<and>
         (\<exists>c \<in> set (getChildren n). tokenBearing K c \<and> u \<in> set (tokensOf K c))"
    proof (rule findNextToken_loop_reach[where i = 0, OF _ l])
      fix c u assume c: "c \<in> set (getChildren n)" "findNextToken_find K t c = Inr (Some u)"
      from wellFormed_children[OF less.prems(1) c(1)] have "wellFormed K c" by simp
      from less.IH[OF size_child[OF c(1)] this c(2)]
      show "u \<in> set (tokensOf K c) \<and> pos u = getEnd t" .
    qed
    with False show ?thesis by (auto simp: tokensOf_other)
  qed
qed

lemma findNextToken_loop_no_error:
  assumes IH: "\<And>c. c \<in> set (getChildren n) \<Longrightarrow> findNextToken_find K t c \<noteq> Inl e"
    and defined: "\<forall>c \<in> set (getChildren n). hasTokensDefined K c"
  shows "findNextToken_loop K t n i \<noteq> Inl e"
proof (induction "getChildCount n - i" arbitrary: i)
  case 0
  then show ?case by (simp add: findNextToken_loop_end)
next
  case (Suc d)
  then have lt: "i < getChildCount n" by simp
  have cin: "getChildAt n i \<in> set (getChildren n)" using lt by simp
  show ?case
  proof (cases "shouldDiveInChildNode t (getChildAt n i)")
    case False
    with lt have "findNextToken_loop K t n i = findNextToken_loop K t n (i + 1)"
      by (rule findNextToken_loop_noDive)
    moreover have "findNextToken_loop K t n (i + 1) \<noteq> Inl e"
      using Suc.hyps(2) by (intro Suc.hyps(1)) simp
    ultimately show ?thesis by simp
  next
    case True
    from defined cin obtain b where b: "nodeHasTokens K (getChildAt n i) = Inr b"
      by (auto simp: hasTokensDefined_def)
    show ?thesis
    proof (cases b)
      case True
      with b lt \<open>shouldDiveInChildNode t (getChildAt n i)\<close>
      have "findNextToken_loop K t n i = findNextToken_find K t (getChildAt n i)"
        by (simp add: findNextToken_loop_dive)
      with IH[OF cin] show ?thesis by simp
    next
      case False
      with b lt have "findNextToken_loop K t n i = findNextToken_loop K t n (i + 1)"
        by (simp add: findNextToken_loop_noTokens)
      moreover have "findNextToken_loop K t n (i + 1) \<noteq> Inl e"
        using Suc.hyps(2) by (intro Suc.hyps(1)) simp
      ultimately show ?thesis by simp
    qed
  qed
qed

lemma findNextToken_find_no_error:
  "\<forall>c \<in> set (nodes n). hasTokensDefined K c \<Longrightarrow> findNextToken_find K t n \<noteq> Inl e"
proof (induction n rule: measure_induct_rule[of size])
  case (less n)
  show ?case
  proof (cases "isToken K n \<and> pos n = getEnd t")
    case True
    then show ?thesis by (simp add: findNextToken_find_token)
  next
    case False
    have "findNextToken_loop K t n 0 \<noteq> Inl e"
    proof (rule findNextToken_loop_no_error)
      fix c assume c: "c \<in> set (getChildren n)"
      with less.prems nodes_child_subset[OF c] have "\<forall>d \<in> set (nodes c). hasTokensDefined K d"
        by blast
      from less.IH[OF size_child[OF c] this] show "findNextToken_find K t c \<noteq> Inl e" .
    next
      show "\<forall>c \<in> set (getChildren n). hasTokensDefined K c"
        using less.prems nodes_child_subset nodes_self by blast
    qed
    with False show ?thesis by (simp add: findNextToken_find_other)
  qed
qed

lemma findNextToken_loop_reaches:
  assumes j: "j < getChildCount n"
    and defined: "\<forall>c \<in> set (getChildren n). hasTokensDefined K c"
    and before: "\<forall>m < j. \<not> (shouldDiveInChildNode t (getChildAt n m) \<and> tokenBearing K (getChildAt n m))"
    and at: "shouldDiveInChildNode t (getChildAt n j)" "tokenBearing K (getChildAt n j)"
  shows "i \<le> j \<Longrightarrow> findNextToken_loop K t n i = findNextToken_find K t (getChildAt n j)"
proof (induction "j - i" arbitrary: i)
  case 0
  then have "i = j" by simp
  with j at show ?case by (simp add: findNextToken_loop_dive tokenBearing_def)
next
  case (Suc d)
  then have lt: "i < j" by simp
  with j have li: "i < getChildCount n" by simp
  have cin: "getChildAt n i \<in> set (getChildren n)" using li by simp
  from li have "findNextToken_loop K t n i = findNextToken_loop K t n (i + 1)"
  proof (cases rule: findNextToken_loop_cases[where K = K and t = t])
    case skip
    then show ?thesis by simp
  next
    case (error e)
    from defined cin obtain b where b: "nodeHasTokens K (getChildAt n i) = Inr b"
      by (auto simp: hasTokensDefined_def)
    show ?thesis
    proof (cases "shouldDiveInChildNode t (getChildAt n i)")
      case False
      with li show ?thesis by (rule findNextToken_loop_noDive)
    next
      case True
      with before lt have "\<not> tokenBearing K (getChildAt n i)" by blast
      with b have "nodeHasTokens K (getChildAt n i) = Inr False"
        by (cases b) (simp_all add: tokenBearing_def)
      with li show ?thesis by (rule findNextToken_loop_noTokens)
    qed
  next
    case dive
    with before lt show ?thesis by blast
  qed
  moreover have "findNextToken_loop K t n (i + 1) = findNextToken_find K t (getChildAt n j)"
    using Suc.hyps(2) lt by (intro Suc.hyps(1)) auto
  ultimately show ?case by simp
qed

lemma wellFormed_no_straddle:
  "wellFormed K n \<Longrightarrow> isToken K t \<Longrightarrow> t \<in> set (nodes n) \<Longrightarrow> m \<in> set (nodes n) \<Longrightarrow>
   pos m \<le> pos t \<or> getEnd t \<le> pos m"
proof (induction n rule: measure_induct_rule[of size])
  case (less n)
  from nodes_cases[OF less.prems(3)] show ?case
  proof
    assume "t = n"
    with less.prems(1,2) have "getChildren n = []" by (simp add: wellFormed_token_leaf)
    with less.prems(4) have "m = n" by (subst (asm) nodes_unfold) simp
    with \<open>t = n\<close> show ?thesis by simp
  next
    assume "\<exists>c \<in> set (getChildren n). t \<in> set (nodes c)"
    then obtain c where c: "c \<in> set (getChildren n)" "t \<in> set (nodes c)" by blast
    from wellFormed_children[OF less.prems(1) c(1)] have wc: "wellFormed K c" by simp
    from nodes_cases[OF less.prems(4)] show ?thesis
    proof
      assume "m = n"
      with wellFormed_nodes[OF less.prems(1,3)] show ?thesis by simp
    next
      assume "\<exists>d \<in> set (getChildren n). m \<in> set (nodes d)"
      then obtain d where d: "d \<in> set (getChildren n)" "m \<in> set (nodes d)" by blast
      from wellFormed_children[OF less.prems(1) d(1)] have wd: "wellFormed K d" by simp
      from c(1) obtain x where x: "x < getChildCount n" "getChildAt n x = c"
        by (auto simp: in_set_conv_nth)
      from d(1) obtain y where y: "y < getChildCount n" "getChildAt n y = d"
        by (auto simp: in_set_conv_nth)
      have sorted: "sortedSpans (getChildren n)" using less.prems(1) by (rule wellFormed_sorted)
      have widths: "\<forall>c \<in> set (getChildren n). pos c \<le> getEnd c"
        using less.prems(1) by (rule wellFormed_child_widths)
      consider "x = y" | "x < y" | "y < x" by linarith
      then show ?thesis
      proof cases
        case 1
        with x y have "c = d" by simp
        with d(2) have "m \<in> set (nodes c)" by simp
        from less.IH[OF size_child[OF c(1)] wc less.prems(2) c(2) this] show ?thesis .
      next
        case 2
        from sortedSpans_nth[OF sorted widths 2 y(1)] x y have "getEnd c \<le> pos d" by simp
        moreover from wellFormed_nodes[OF wc c(2)] have "getEnd t \<le> getEnd c" by simp
        moreover from wellFormed_nodes[OF wd d(2)] have "pos d \<le> pos m" by simp
        ultimately show ?thesis by simp
      next
        case 3
        from sortedSpans_nth[OF sorted widths 3 x(1)] x y have "getEnd d \<le> pos c" by simp
        moreover from wellFormed_nodes[OF wc c(2)] have "pos c \<le> pos t" by simp
        moreover from wellFormed_nodes[OF wd d(2)] have "getEnd m \<le> getEnd d" "wellFormed K m"
          by simp_all
        moreover from this(2) have "pos m \<le> getEnd m" by (rule wellFormed_pos_le_end)
        ultimately show ?thesis by simp
      qed
    qed
  qed
qed

lemma findNextToken_find_complete:
  "wellFormed K n \<Longrightarrow>
   \<forall>m \<in> set (nodes n). pos m \<le> pos t \<or> getEnd t \<le> pos m \<Longrightarrow>
   \<forall>c \<in> set (nodes n). tokenBearing K c \<longrightarrow> pos c < getEnd c \<Longrightarrow>
   \<forall>c \<in> set (nodes n). hasTokensDefined K c \<Longrightarrow>
   u \<in> set (tokensOf K n) \<Longrightarrow> pos u = getEnd t \<Longrightarrow>
   findNextToken_find K t n = Inr (Some u)"
proof (induction n rule: measure_induct_rule[of size])
  case (less n)
  note wf = less.prems(1) and lam = less.prems(2) and widths = less.prems(3)
    and defined = less.prems(4) and u = less.prems(5) and pu = less.prems(6)
  from u show ?case
  proof (cases rule: tokensOf_cases)
    case self
    with pu show ?thesis by (simp add: findNextToken_find_token)
  next
    case (child c)
    from child(2) obtain j where j: "j < getChildCount n" "getChildAt n j = c"
      by (auto simp: in_set_conv_nth)
    have sub: "set (nodes c) \<subseteq> set (nodes n)" using child(2) by (rule nodes_child_subset)
    have cn: "c \<in> set (nodes n)" using sub nodes_self by blast
    from wellFormed_children[OF wf child(2)] have wc: "wellFormed K c" by simp
    from tokensOf_nodes[OF child(4)] have un: "u \<in> set (nodes c)" "isToken K u"
      "u = c \<or> tokenBearing K u" by simp_all
    from un(3) child(3) have tbu: "tokenBearing K u" by auto
    from wellFormed_nodes[OF wc un(1)] have encl: "pos c \<le> pos u" "getEnd u \<le> getEnd c"
      by simp_all
    from widths tbu un(1) sub have wu: "pos u < getEnd u" by blast
    have dive: "shouldDiveInChildNode t c"
    proof (cases "pos c = getEnd t")
      case True
      then show ?thesis by (simp add: shouldDiveInChildNode_def)
    next
      case False
      with encl(1) pu have "pos c < getEnd t" by simp
      with lam cn have "pos c \<le> pos t" by fastforce
      moreover from encl(2) wu pu have "getEnd t < getEnd c" by simp
      ultimately show ?thesis by (simp add: shouldDiveInChildNode_def)
    qed
    have sorted: "sortedSpans (getChildren n)" using wf by (rule wellFormed_sorted)
    have cw: "\<forall>c \<in> set (getChildren n). pos c \<le> getEnd c"
      using wf by (rule wellFormed_child_widths)
    have before: "\<forall>m < j. \<not> (shouldDiveInChildNode t (getChildAt n m) \<and> tokenBearing K (getChildAt n m))"
    proof (intro allI impI notI)
      fix m assume m: "m < j" and h: "shouldDiveInChildNode t (getChildAt n m) \<and> tokenBearing K (getChildAt n m)"
      let ?d = "getChildAt n m"
      from m j have dm: "?d \<in> set (getChildren n)" by simp
      then have "?d \<in> set (nodes n)" using nodes_child_subset nodes_self by blast
      with widths h have wd: "pos ?d < getEnd ?d" by blast
      from sortedSpans_nth[OF sorted cw m j(1)] j(2) have "getEnd ?d \<le> pos c" by simp
      with encl(1) pu have "getEnd ?d \<le> getEnd t" by simp
      with wd h show False by (auto simp: shouldDiveInChildNode_def)
    qed
    have cd: "\<forall>c \<in> set (getChildren n). hasTokensDefined K c"
      using defined nodes_child_subset nodes_self by blast
    have "findNextToken_find K t n = findNextToken_loop K t n 0"
      using child(1) by (simp add: findNextToken_find_other)
    also have "\<dots> = findNextToken_find K t (getChildAt n j)"
      using j(1) cd before dive child(3) j(2)
      by (intro findNextToken_loop_reaches) simp_all
    also have "\<dots> = Inr (Some u)"
      unfolding j(2) using lam widths defined sub
      by (intro less.IH[OF size_child[OF child(2)] wc _ _ _ child(4) pu]) blast+
    finally show ?thesis .
  qed
qed

text \<open>
  Claim C5, as the code has it. Let \<open>t\<close> be a token inside a bounding ancestor
  \<open>parent\<close> that is not itself a token, in a well-formed tree where \<^verbatim>\<open>nodeHasTokens\<close>
  has a value for every node and every token-bearing node has a non-empty full span.
  Then \<^verbatim>\<open>findNextToken\<close> never fails; it returns \<open>u\<close> exactly when \<open>u\<close> is a reachable
  token of \<open>parent\<close> whose full start is the end of \<open>t\<close> (so there is at most one), and
  absent exactly when there is none. In particular it returns absent when \<open>parent\<close>
  ends at or before the end of \<open>t\<close>.
\<close>

theorem findNextToken_reachable_token:
  assumes wf: "wellFormed K parent"
    and tok: "isToken K t" and inside: "t \<in> set (nodes parent)"
    and ancestor: "\<not> isToken K parent"
    and widths: "\<forall>c \<in> set (nodes parent). tokenBearing K c \<longrightarrow> pos c < getEnd c"
    and defined: "\<forall>c \<in> set (nodes parent). hasTokensDefined K c"
  shows "(\<forall>u. findNextToken K t parent = Inr (Some u) \<longleftrightarrow>
              u \<in> set (tokensOf K parent) \<and> pos u = getEnd t) \<and>
         (findNextToken K t parent = Inr None \<longleftrightarrow>
              (\<forall>u \<in> set (tokensOf K parent). pos u \<noteq> getEnd t)) \<and>
         (getEnd parent \<le> getEnd t \<longrightarrow> findNextToken K t parent = Inr None)"
proof -
  have lam: "\<forall>m \<in> set (nodes parent). pos m \<le> pos t \<or> getEnd t \<le> pos m"
    using wellFormed_no_straddle[OF wf tok inside] by blast
  have some: "findNextToken K t parent = Inr (Some u) \<longleftrightarrow>
              u \<in> set (tokensOf K parent) \<and> pos u = getEnd t" for u
    unfolding findNextToken_def
    using findNextToken_find_reach[OF wf, of t u]
      findNextToken_find_complete[OF wf lam widths defined, of u]
    by blast
  have noerr: "findNextToken K t parent \<noteq> Inl e" for e
    unfolding findNextToken_def using defined by (rule findNextToken_find_no_error)
  have none: "findNextToken K t parent = Inr None \<longleftrightarrow>
              (\<forall>u \<in> set (tokensOf K parent). pos u \<noteq> getEnd t)"
  proof (cases "findNextToken K t parent")
    case (Inl e)
    with noerr show ?thesis by blast
  next
    case (Inr r)
    show ?thesis
    proof (cases r)
      case None
      with Inr some show ?thesis by auto
    next
      case (Some u)
      with Inr some[of u] show ?thesis by auto
    qed
  qed
  have "\<forall>u \<in> set (tokensOf K parent). pos u \<noteq> getEnd t" if le: "getEnd parent \<le> getEnd t"
  proof
    fix u assume u: "u \<in> set (tokensOf K parent)"
    from tokensOf_nodes[OF u] ancestor have un: "u \<in> set (nodes parent)" "tokenBearing K u"
      by auto
    with widths have "pos u < getEnd u" by blast
    moreover from wellFormed_nodes[OF wf un(1)] have "getEnd u \<le> getEnd parent" by simp
    ultimately show "pos u \<noteq> getEnd t" using le by simp
  qed
  with some none show ?thesis by blast
qed


text \<open>
  The theorem at the sample document: the token after the opening parenthesis inside
  the call expression is the numeric literal \<^verbatim>\<open>1\<close>.
\<close>

theorem findNextToken_reachable_token_witness:
  "wellFormed sampleKinds callExpr \<and> isToken sampleKinds tOpen \<and>
   tOpen \<in> set (nodes callExpr) \<and> \<not> isToken sampleKinds callExpr \<and>
   list_all (\<lambda>c. tokenBearing sampleKinds c \<longrightarrow> pos c < getEnd c) (nodes callExpr) \<and>
   list_all (hasTokensDefined sampleKinds) (nodes callExpr) \<and>
   tOne \<in> set (tokensOf sampleKinds callExpr) \<and> pos tOne = getEnd tOpen \<and>
   findNextToken sampleKinds tOpen callExpr = Inr (Some tOne)"
proof -
  have h1: "wellFormed sampleKinds callExpr" by (simp add: sample_defs isToken_def)
  have h2: "isToken sampleKinds tOpen" by (simp add: sample_defs isToken_def)
  have h3: "tOpen \<in> set (nodes callExpr)" by (simp add: sample_defs)
  have h4: "\<not> isToken sampleKinds callExpr" by (simp add: sample_defs isToken_def)
  have h5: "\<forall>c \<in> set (nodes callExpr). tokenBearing sampleKinds c \<longrightarrow> pos c < getEnd c"
    by (simp add: sample_defs tokenBearing_def)
  have h6: "\<forall>c \<in> set (nodes callExpr). hasTokensDefined sampleKinds c"
    by (auto simp: sample_defs hasTokensDefined_def)
  have h7: "tOne \<in> set (tokensOf sampleKinds callExpr)"
    by (simp add: sample_defs isToken_def tokenBearing_def)
  have h8: "pos tOne = getEnd tOpen" by (simp add: sample_defs)
  from findNextToken_reachable_token[OF h1 h2 h3 h4 h5 h6] h7 h8
  have "findNextToken sampleKinds tOpen callExpr = Inr (Some tOne)" by blast
  with h1 h2 h3 h4 h5 h6 h7 h8 show ?thesis by (simp add: list_all_iff)
qed

text \<open>
  Claim C5 as stated fails for a token that the search cannot reach: in the well-formed
  block \<^verbatim>\<open>{;}\<close> the semicolon starts where the opening brace ends, but it lies in an
  expression statement whose expression is missing, which \<^verbatim>\<open>nodeHasTokens\<close> rejects,
  and the search returns absent.
\<close>

theorem findNextToken_unreachable_counterexample:
  "wellFormed sampleKinds block \<and> fullyCovered sampleKinds block \<and> startsNested block \<and>
   \<not> isToken sampleKinds block \<and>
   isToken sampleKinds bOpen \<and> bOpen \<in> set (nodes block) \<and>
   isToken sampleKinds bSemi \<and> bSemi \<in> set (nodes block) \<and> pos bSemi = getEnd bOpen \<and>
   findNextToken sampleKinds bOpen block = Inr None"
  by (simp add: findNextToken_def findNextToken_find.simps findNextToken_loop.simps
      isToken_def block_defs)

subsection \<open>The preceding token\<close>

lemma tokensTight_token: "isToken K n \<Longrightarrow> tokensTight K n \<longleftrightarrow> getStart n < getEnd n"
  by (cases n) simp

lemma tokensTight_other:
  "\<not> isToken K n \<Longrightarrow>
   tokensTight K n \<longleftrightarrow>
     (\<forall>c \<in> set (getChildren n). hasTokensDefined K c) \<and>
     filter (tokenBearing K) (getChildren n) \<noteq> [] \<and>
     getStart (hd (filter (tokenBearing K) (getChildren n))) = getStart n \<and>
     getEnd (last (filter (tokenBearing K) (getChildren n))) = getEnd n \<and>
     startSorted (filter (tokenBearing K) (getChildren n)) \<and>
     (\<forall>c \<in> set (filter (tokenBearing K) (getChildren n)). tokensTight K c)"
  by (cases n) simp

lemma tokensOf_reachable: "\<not> isToken K n \<Longrightarrow> tokensOf K n = reachableTokens K (getChildren n)"
  by (simp add: tokensOf_other reachableTokens_def)

lemma tokenChain_tl: "tokenChain (t # ts) \<Longrightarrow> tokenChain ts"
  by (cases ts) simp_all

lemma tokenChain_hd: "tokenChain (t # ts) \<Longrightarrow> getStart t < getEnd t"
  by (cases ts) simp_all

lemma tokenChain_widths: "tokenChain ts \<Longrightarrow> t \<in> set ts \<Longrightarrow> getStart t < getEnd t"
proof (induction ts)
  case Nil
  then show ?case by simp
next
  case (Cons a ts)
  then show ?case using tokenChain_tl[of a ts] tokenChain_hd[of a ts] by auto
qed

lemma tokenChain_later: "tokenChain (t # ts) \<Longrightarrow> u \<in> set ts \<Longrightarrow> getEnd t \<le> getStart u"
proof (induction ts arbitrary: t)
  case Nil
  then show ?case by simp
next
  case (Cons a ts)
  from Cons.prems(1) have a: "getEnd t \<le> getStart a" "tokenChain (a # ts)" by simp_all
  show ?case
  proof (cases "u = a")
    case True
    with a show ?thesis by simp
  next
    case False
    with Cons.prems(2) have "u \<in> set ts" by simp
    from Cons.IH[OF a(2) this] have "getEnd a \<le> getStart u" .
    moreover from tokenChain_hd[OF a(2)] have "getStart a < getEnd a" .
    ultimately show ?thesis using a(1) by simp
  qed
qed

lemma tokenChain_end_le_last:
  "tokenChain ts \<Longrightarrow> t \<in> set ts \<Longrightarrow> getEnd t \<le> getEnd (last ts)"
proof (induction ts)
  case Nil
  then show ?case by simp
next
  case (Cons a ts)
  show ?case
  proof (cases "ts = []")
    case True
    with Cons.prems show ?thesis by simp
  next
    case False
    then have l: "last (a # ts) = last ts" by simp
    have lin: "last ts \<in> set ts" using False by simp
    show ?thesis
    proof (cases "t = a")
      case True
      from tokenChain_later[OF Cons.prems(1) lin] tokenChain_widths[OF tokenChain_tl[OF Cons.prems(1)] lin]
      show ?thesis using True l by simp
    next
      case False
      with Cons.prems(2) have "t \<in> set ts" by simp
      from Cons.IH[OF tokenChain_tl[OF Cons.prems(1)] this] l show ?thesis by simp
    qed
  qed
qed

lemma tokenChain_append:
  "tokenChain xs \<Longrightarrow> tokenChain ys \<Longrightarrow> xs \<noteq> [] \<Longrightarrow> ys \<noteq> [] \<Longrightarrow>
   getEnd (last xs) \<le> getStart (hd ys) \<Longrightarrow> tokenChain (xs @ ys)"
proof (induction xs rule: tokenChain.induct)
  case 1
  then show ?case by simp
next
  case (2 t)
  then show ?case by (cases ys) simp_all
next
  case (3 t u ts)
  then show ?case by simp
qed


lemma concat_goodTokens:
  "\<forall>c \<in> set cs. goodTokens K c \<Longrightarrow> startSorted cs \<Longrightarrow> cs \<noteq> [] \<Longrightarrow>
   concat (map (tokensOf K) cs) \<noteq> [] \<and>
   getStart (hd (concat (map (tokensOf K) cs))) = getStart (hd cs) \<and>
   getEnd (last (concat (map (tokensOf K) cs))) = getEnd (last cs) \<and>
   tokenChain (concat (map (tokensOf K) cs))"
proof (induction cs rule: startSorted.induct)
  case 1
  then show ?case by simp
next
  case (2 c)
  then show ?case by (simp add: goodTokens_def)
next
  case (3 c d cs)
  let ?T = "tokensOf K c" and ?R = "concat (map (tokensOf K) (d # cs))"
  from "3.prems" have gc: "goodTokens K c" and sorted: "getEnd c \<le> getStart d" by simp_all
  from "3.prems" have "\<forall>c \<in> set (d # cs). goodTokens K c" "startSorted (d # cs)" by simp_all
  from "3.IH"[OF this] have R: "?R \<noteq> []" "getStart (hd ?R) = getStart d"
    "getEnd (last ?R) = getEnd (last (d # cs))" "tokenChain ?R" by simp_all
  from gc have T: "?T \<noteq> []" "getStart (hd ?T) = getStart c" "getEnd (last ?T) = getEnd c"
    "tokenChain ?T" by (simp_all add: goodTokens_def)
  have eq: "concat (map (tokensOf K) (c # d # cs)) = ?T @ ?R" by simp
  have "tokenChain (?T @ ?R)"
    using T(4) R(4) T(1) R(1) T(3) R(2) sorted by (intro tokenChain_append) simp_all
  moreover have "hd (?T @ ?R) = hd ?T" using T(1) by simp
  moreover have "last (?T @ ?R) = last ?R" using R(1) by simp
  ultimately show ?case unfolding eq using T R by simp
qed

lemma tokensTight_goodTokens: "tokensTight K n \<Longrightarrow> goodTokens K n"
proof (induction n rule: measure_induct_rule[of size])
  case (less n)
  show ?case
  proof (cases "isToken K n")
    case True
    with less.prems show ?thesis by (simp add: tokensTight_token tokensOf_token goodTokens_def)
  next
    case False
    let ?cs = "filter (tokenBearing K) (getChildren n)"
    from less.prems False have t: "?cs \<noteq> []" "getStart (hd ?cs) = getStart n"
      "getEnd (last ?cs) = getEnd n" "startSorted ?cs" "\<forall>c \<in> set ?cs. tokensTight K c"
      by (simp_all add: tokensTight_other)
    have "\<forall>c \<in> set ?cs. goodTokens K c"
    proof
      fix c assume c: "c \<in> set ?cs"
      then have "c \<in> set (getChildren n)" by simp
      from less.IH[OF size_child[OF this]] t(5) c show "goodTokens K c" by blast
    qed
    from concat_goodTokens[OF this t(4) t(1)] t(2,3) False show ?thesis
      by (simp add: goodTokens_def tokensOf_other)
  qed
qed

lemma reachableTokens_chain:
  assumes "\<forall>c \<in> set (filter (tokenBearing K) cs). tokensTight K c"
    and "startSorted (filter (tokenBearing K) cs)"
  shows "tokenChain (reachableTokens K cs)"
proof (cases "filter (tokenBearing K) cs = []")
  case True
  then show ?thesis by (simp add: reachableTokens_def)
next
  case False
  have "\<forall>c \<in> set (filter (tokenBearing K) cs). goodTokens K c"
    using assms(1) tokensTight_goodTokens by blast
  from concat_goodTokens[OF this assms(2) False] show ?thesis by (simp add: reachableTokens_def)
qed

lemma findRightmostChildNodeWithTokens_char:
  "\<forall>c \<in> set cs. hasTokensDefined K c \<Longrightarrow> i \<le> length cs \<Longrightarrow>
   findRightmostChildNodeWithTokens K cs i = Inr (lastOption (filter (tokenBearing K) (take i cs)))"
proof (induction i)
  case 0
  then show ?case by (simp add: lastOption_def)
next
  case (Suc i)
  then have lt: "i < length cs" by simp
  then have tk: "take (Suc i) cs = take i cs @ [cs ! i]" by (rule take_Suc_conv_app_nth)
  from lt have "cs ! i \<in> set cs" by simp
  with Suc.prems(1) have "hasTokensDefined K (cs ! i)" by blast
  then obtain b where b: "nodeHasTokens K (cs ! i) = Inr b"
    by (auto simp: hasTokensDefined_def)
  show ?case
  proof (cases b)
    case True
    with b lt show ?thesis unfolding tk by (simp add: tokenBearing_def lastOption_def)
  next
    case False
    with b lt Suc.IH[OF Suc.prems(1)] show ?thesis unfolding tk by (simp add: tokenBearing_def)
  qed
qed

lemma last_concat_map:
  "xs \<noteq> [] \<Longrightarrow> f (last xs) \<noteq> [] \<Longrightarrow> last (concat (map f xs)) = last (f (last xs))"
proof (induction xs)
  case Nil
  then show ?case by simp
next
  case (Cons x xs)
  show ?case
  proof (cases "xs = []")
    case True
    then show ?thesis by simp
  next
    case False
    with Cons have "last (concat (map f xs)) = last (f (last xs))" "concat (map f xs) \<noteq> []"
      by auto
    with False show ?thesis by simp
  qed
qed

lemma reachableTokens_last:
  assumes "\<forall>c \<in> set (filter (tokenBearing K) cs). tokensTight K c"
  shows "lastOption (reachableTokens K cs) =
         (case lastOption (filter (tokenBearing K) cs) of
            None \<Rightarrow> None | Some c \<Rightarrow> Some (last (tokensOf K c)))"
proof (cases "filter (tokenBearing K) cs = []")
  case True
  then show ?thesis by (simp add: reachableTokens_def lastOption_def)
next
  case False
  let ?cs = "filter (tokenBearing K) cs"
  have "last ?cs \<in> set ?cs" using False by (rule last_in_set)
  with assms have "goodTokens K (last ?cs)" using tokensTight_goodTokens by blast
  then have ne: "tokensOf K (last ?cs) \<noteq> []" by (simp add: goodTokens_def)
  from last_concat_map[OF False, of "tokensOf K", OF ne]
  have "last (reachableTokens K cs) = last (tokensOf K (last ?cs))"
    by (simp add: reachableTokens_def)
  moreover have "reachableTokens K cs \<noteq> []"
    using ne \<open>last ?cs \<in> set ?cs\<close> unfolding reachableTokens_def by auto
  ultimately show ?thesis using False by (simp add: lastOption_def)
qed

lemma findRightmostToken_char:
  "tokensTight K n \<Longrightarrow> findRightmostToken K n = Inr (Some (last (tokensOf K n)))"
proof (induction n rule: measure_induct_rule[of size])
  case (less n)
  show ?case
  proof (cases "isToken K n")
    case True
    then show ?thesis by (simp add: findRightmostToken_token tokensOf_token)
  next
    case False
    let ?cs = "filter (tokenBearing K) (getChildren n)"
    from less.prems False have t: "\<forall>c \<in> set (getChildren n). hasTokensDefined K c"
      "?cs \<noteq> []" "\<forall>c \<in> set ?cs. tokensTight K c"
      by (simp_all add: tokensTight_other)
    have c: "findRightmostChildNodeWithTokens K (getChildren n) (getChildCount n) = Inr (Some (last ?cs))"
      using findRightmostChildNodeWithTokens_char[OF t(1), of "getChildCount n"] t(2)
      by (simp add: lastOption_def)
    have lin: "last ?cs \<in> set ?cs" using t(2) by (rule last_in_set)
    then have "last ?cs \<in> set (getChildren n)" by simp
    from less.IH[OF size_child[OF this]] t(3) lin
    have r: "findRightmostToken K (last ?cs) = Inr (Some (last (tokensOf K (last ?cs))))" by blast
    have "lastOption (reachableTokens K (getChildren n)) = Some (last (tokensOf K (last ?cs)))"
      using reachableTokens_last[OF t(3)] t(2) by (simp add: lastOption_def)
    then have "last (tokensOf K n) = last (tokensOf K (last ?cs))"
      using False by (simp add: tokensOf_reachable lastOption_def split: if_splits)
    with False c r show ?thesis
      by (simp add: findRightmostToken_other rightmostTokenBefore_def)
  qed
qed

lemma rightmostTokenBefore_char:
  assumes "\<forall>c \<in> set cs. hasTokensDefined K c"
    and "\<forall>c \<in> set (filter (tokenBearing K) cs). tokensTight K c"
    and "i \<le> length cs"
  shows "rightmostTokenBefore K cs i = Inr (lastOption (reachableTokens K (take i cs)))"
proof -
  let ?cs = "filter (tokenBearing K) (take i cs)"
  have sub: "set ?cs \<subseteq> set (filter (tokenBearing K) cs)"
    using set_take_subset[of i cs] by auto
  with assms(2) have tight: "\<forall>c \<in> set ?cs. tokensTight K c" by blast
  have c: "findRightmostChildNodeWithTokens K cs i = Inr (lastOption ?cs)"
    using assms(1,3) by (rule findRightmostChildNodeWithTokens_char)
  show ?thesis
  proof (cases "?cs = []")
    case True
    with c show ?thesis by (simp add: rightmostTokenBefore_def lastOption_def reachableTokens_def)
  next
    case False
    then have "last ?cs \<in> set ?cs" by (rule last_in_set)
    with tight have "tokensTight K (last ?cs)" by blast
    from findRightmostToken_char[OF this] c False reachableTokens_last[OF tight]
    show ?thesis by (simp add: rightmostTokenBefore_def lastOption_def)
  qed
qed

lemma precedingIn_past:
  "\<forall>t \<in> set xs. \<not> p < getEnd t \<Longrightarrow>
   precedingIn p (xs @ ys) prev =
   precedingIn p ys (case lastOption xs of None \<Rightarrow> prev | Some l \<Rightarrow> Some l)"
proof (induction xs arbitrary: prev)
  case Nil
  then show ?case by (simp add: lastOption_def)
next
  case (Cons x xs)
  then show ?case by (cases "xs = []") (simp_all add: lastOption_def)
qed

lemma precedingIn_within:
  "\<exists>t \<in> set xs. p < getEnd t \<Longrightarrow> precedingIn p (xs @ ys) prev = precedingIn p xs prev"
  by (induction xs arbitrary: prev) auto

lemma precedingIn_before:
  "xs \<noteq> [] \<Longrightarrow> p \<le> getStart (hd xs) \<Longrightarrow> getStart (hd xs) < getEnd (hd xs) \<Longrightarrow>
   precedingIn p (xs @ ys) prev = prev"
  by (cases xs) auto

lemma precedingIn_any_prev:
  "xs \<noteq> [] \<Longrightarrow> getStart (hd xs) < p \<Longrightarrow> precedingIn p xs prev = precedingIn p xs prev'"
  by (cases xs) auto


lemma reachableTokens_Cons_tb:
  "tokenBearing K c \<Longrightarrow> reachableTokens K (c # cs) = tokensOf K c @ reachableTokens K cs"
  by (simp add: reachableTokens_def)

lemma reachableTokens_Cons_no:
  "\<not> tokenBearing K c \<Longrightarrow> reachableTokens K (c # cs) = reachableTokens K cs"
  by (simp add: reachableTokens_def)

lemma reachableTokens_snoc_tb:
  "tokenBearing K c \<Longrightarrow> reachableTokens K (cs @ [c]) = reachableTokens K cs @ tokensOf K c"
  by (simp add: reachableTokens_def)

lemma reachableTokens_snoc_no:
  "\<not> tokenBearing K c \<Longrightarrow> reachableTokens K (cs @ [c]) = reachableTokens K cs"
  by (simp add: reachableTokens_def)

lemma lastOption_append:
  "ys \<noteq> [] \<Longrightarrow> lastOption (xs @ ys) = Some (last ys)"
  by (simp add: lastOption_def)

lemma findPrecedingToken_loop_char:
  assumes defined: "\<forall>c \<in> set (getChildren n). hasTokensDefined K c"
    and tight: "\<forall>c \<in> set (filter (tokenBearing K) (getChildren n)). tokensTight K c"
    and IH: "\<And>c prev. c \<in> set (getChildren n) \<Longrightarrow> tokenBearing K c \<Longrightarrow>
               getStart c < p \<Longrightarrow> p < getEnd c \<Longrightarrow>
               findPrecedingToken_find K p c = Inr (precedingIn p (tokensOf K c) prev)"
  shows "i \<le> getChildCount n \<Longrightarrow>
         kind n = SourceFile K \<or>
           (\<exists>j. i \<le> j \<and> j < getChildCount n \<and> tokenBearing K (getChildAt n j) \<and>
                p < getEnd (getChildAt n j)) \<Longrightarrow>
         findPrecedingToken_loop K p n i =
           Inr (precedingIn p (reachableTokens K (drop i (getChildren n)))
                  (lastOption (reachableTokens K (take i (getChildren n)))))"
proof (induction "getChildCount n - i" arbitrary: i)
  case 0
  then have i: "i = getChildCount n" by simp
  with "0.prems"(2) have sf: "kind n = SourceFile K" by auto
  have "findPrecedingToken_loop K p n i =
        (if getChildCount n \<noteq> 0 then rightmostTokenBefore K (getChildren n) (getChildCount n)
         else Inr None)"
    using i sf by (simp add: findPrecedingToken_loop_end)
  also have "\<dots> = Inr (lastOption (reachableTokens K (getChildren n)))"
  proof (cases "getChildCount n = 0")
    case True
    then show ?thesis by (simp add: reachableTokens_def lastOption_def)
  next
    case False
    with rightmostTokenBefore_char[OF defined tight, of "getChildCount n"] show ?thesis by simp
  qed
  finally show ?case using i by (simp add: reachableTokens_def)
next
  case (Suc d)
  then have lt: "i < getChildCount n" by simp
  let ?cs = "getChildren n" and ?c = "getChildAt n i"
  have next_i: "d = getChildCount n - (i + 1)" "i + 1 \<le> getChildCount n"
    using Suc.hyps(2) by simp_all
  have cin: "?c \<in> set ?cs" using lt by simp
  have dr: "drop i ?cs = ?c # drop (i + 1) ?cs" using lt by (simp add: Cons_nth_drop_Suc)
  have tk: "take (i + 1) ?cs = take i ?cs @ [?c]" using lt by (simp add: take_Suc_conv_app_nth)
  let ?prev = "lastOption (reachableTokens K (take i ?cs))"
  from defined cin obtain b where b: "nodeHasTokens K ?c = Inr b"
    by (auto simp: hasTokensDefined_def)
  show ?case
  proof (cases b)
    case False
    with b have ntb: "\<not> tokenBearing K ?c" and nh: "nodeHasTokens K ?c = Inr False"
      by (simp_all add: tokenBearing_def)
    have exit: "kind n = SourceFile K \<or>
           (\<exists>j. i + 1 \<le> j \<and> j < getChildCount n \<and> tokenBearing K (getChildAt n j) \<and>
                p < getEnd (getChildAt n j))"
    proof (rule disjE[OF Suc.prems(2)])
      assume "kind n = SourceFile K" then show ?thesis by simp
    next
      assume "\<exists>j. i \<le> j \<and> j < getChildCount n \<and> tokenBearing K (getChildAt n j) \<and>
                p < getEnd (getChildAt n j)"
      then obtain j where j: "i \<le> j" "j < getChildCount n" "tokenBearing K (getChildAt n j)"
        "p < getEnd (getChildAt n j)" by blast
      with ntb have "j \<noteq> i" by auto
      with j show ?thesis by (intro disjI2 exI[of _ j]) simp
    qed
    have "findPrecedingToken_loop K p n i = findPrecedingToken_loop K p n (i + 1)"
      using lt nh by (rule findPrecedingToken_loop_noTokens)
    also have "\<dots> = Inr (precedingIn p (reachableTokens K (drop (i + 1) ?cs))
                  (lastOption (reachableTokens K (take (i + 1) ?cs))))"
      using next_i exit by (rule Suc.hyps(1))
    finally show ?thesis
      unfolding dr tk by (simp add: reachableTokens_Cons_no[OF ntb] reachableTokens_snoc_no[OF ntb])
  next
    case True
    with b have tb: "tokenBearing K ?c" and nh: "nodeHasTokens K ?c = Inr True"
      by (simp_all add: tokenBearing_def)
    let ?T = "tokensOf K ?c" and ?R = "reachableTokens K (drop (i + 1) ?cs)"
    from tight cin tb have "tokensTight K ?c" by simp
    from tokensTight_goodTokens[OF this] have T: "?T \<noteq> []" "getStart (hd ?T) = getStart ?c"
      "getEnd (last ?T) = getEnd ?c" "tokenChain ?T" by (simp_all add: goodTokens_def)
    have drT: "reachableTokens K (drop i ?cs) = ?T @ ?R"
      unfolding dr by (rule reachableTokens_Cons_tb[OF tb])
    have tkT: "reachableTokens K (take (i + 1) ?cs) = reachableTokens K (take i ?cs) @ ?T"
      unfolding tk by (rule reachableTokens_snoc_tb[OF tb])
    show ?thesis
    proof (cases "p < getEnd ?c")
      case False
      have exit: "kind n = SourceFile K \<or>
           (\<exists>j. i + 1 \<le> j \<and> j < getChildCount n \<and> tokenBearing K (getChildAt n j) \<and>
                p < getEnd (getChildAt n j))"
      proof (rule disjE[OF Suc.prems(2)])
        assume "kind n = SourceFile K" then show ?thesis by simp
      next
        assume "\<exists>j. i \<le> j \<and> j < getChildCount n \<and> tokenBearing K (getChildAt n j) \<and>
                p < getEnd (getChildAt n j)"
        then obtain j where j: "i \<le> j" "j < getChildCount n" "tokenBearing K (getChildAt n j)"
          "p < getEnd (getChildAt n j)" by blast
        with False have "j \<noteq> i" by auto
        with j show ?thesis by (intro disjI2 exI[of _ j]) simp
      qed
      have past: "\<forall>t \<in> set ?T. \<not> p < getEnd t"
      proof
        fix t assume "t \<in> set ?T"
        from tokenChain_end_le_last[OF T(4) this] T(3) False show "\<not> p < getEnd t" by simp
      qed
      have "findPrecedingToken_loop K p n i = findPrecedingToken_loop K p n (i + 1)"
        using lt nh False by (rule findPrecedingToken_loop_past)
      also have "\<dots> = Inr (precedingIn p ?R (lastOption (reachableTokens K (take (i + 1) ?cs))))"
        using next_i exit by (rule Suc.hyps(1))
      also have "lastOption (reachableTokens K (take (i + 1) ?cs)) = Some (last ?T)"
        unfolding tkT using T(1) by (rule lastOption_append)
      also have "precedingIn p ?R (Some (last ?T)) = precedingIn p (?T @ ?R) ?prev"
        using precedingIn_past[OF past, of ?R ?prev] T(1) by (simp add: lastOption_def)
      finally show ?thesis unfolding drT .
    next
      case inside: True
      show ?thesis
      proof (cases "getStart ?c \<ge> p")
        case True
        have "findPrecedingToken_loop K p n i = rightmostTokenBefore K ?cs i"
          using lt nh inside True by (rule findPrecedingToken_loop_previous)
        also have "\<dots> = Inr ?prev"
          using defined tight lt by (intro rightmostTokenBefore_char) simp_all
        also have "?prev = precedingIn p (?T @ ?R) ?prev"
        proof (rule precedingIn_before[symmetric])
          show "?T \<noteq> []" by (rule T(1))
          show "p \<le> getStart (hd ?T)" using T(2) True by simp
          have "hd ?T \<in> set ?T" using T(1) by simp
          from tokenChain_widths[OF T(4) this] show "getStart (hd ?T) < getEnd (hd ?T)" .
        qed
        finally show ?thesis unfolding drT .
      next
        case False
        then have st: "getStart ?c < p" by simp
        have "findPrecedingToken_loop K p n i = findPrecedingToken_find K p ?c"
          using lt nh inside st by (rule findPrecedingToken_loop_into)
        also have "\<dots> = Inr (precedingIn p ?T ?prev)"
          using cin tb st inside by (rule IH)
        also have "precedingIn p ?T ?prev = precedingIn p (?T @ ?R) ?prev"
        proof (rule precedingIn_within[symmetric])
          have "last ?T \<in> set ?T" using T(1) by simp
          moreover have "p < getEnd (last ?T)" using T(3) inside by simp
          ultimately show "\<exists>t \<in> set ?T. p < getEnd t" by blast
        qed
        finally show ?thesis unfolding drT .
      qed
    qed
  qed
qed

lemma findPrecedingToken_find_char:
  "tokensTight K n \<Longrightarrow> getStart n < p \<Longrightarrow> p < getEnd n \<Longrightarrow>
   findPrecedingToken_find K p n = Inr (precedingIn p (tokensOf K n) prev)"
proof (induction n arbitrary: prev rule: measure_induct_rule[of size])
  case (less n)
  show ?case
  proof (cases "isToken K n")
    case True
    with less.prems show ?thesis by (simp add: findPrecedingToken_find_token tokensOf_token)
  next
    case False
    let ?cs = "filter (tokenBearing K) (getChildren n)"
    from less.prems(1) False have t: "\<forall>c \<in> set (getChildren n). hasTokensDefined K c"
      "?cs \<noteq> []" "getEnd (last ?cs) = getEnd n" "\<forall>c \<in> set ?cs. tokensTight K c"
      by (simp_all add: tokensTight_other)
    from tokensTight_goodTokens[OF less.prems(1)]
    have g: "tokensOf K n \<noteq> []" "getStart (hd (tokensOf K n)) = getStart n"
      by (simp_all add: goodTokens_def)
    have "last ?cs \<in> set ?cs" using t(2) by (rule last_in_set)
    then obtain j where j: "j < getChildCount n" "getChildAt n j = last ?cs"
      "tokenBearing K (getChildAt n j)" by (auto simp: in_set_conv_nth)
    have exit: "kind n = SourceFile K \<or>
           (\<exists>j. 0 \<le> j \<and> j < getChildCount n \<and> tokenBearing K (getChildAt n j) \<and>
                p < getEnd (getChildAt n j))"
      using j t(3) less.prems(3) by (intro disjI2 exI[of _ j]) simp
    have "findPrecedingToken_find K p n = findPrecedingToken_loop K p n 0"
      using False by (rule findPrecedingToken_find_other)
    also have "\<dots> = Inr (precedingIn p (reachableTokens K (drop 0 (getChildren n)))
                  (lastOption (reachableTokens K (take 0 (getChildren n)))))"
    proof (rule findPrecedingToken_loop_char[OF t(1) t(4) _ _ exit])
      fix c prev assume c: "c \<in> set (getChildren n)" "tokenBearing K c" "getStart c < p"
        "p < getEnd c"
      with t(4) have "tokensTight K c" by simp
      from less.IH[OF size_child[OF c(1)] this c(3,4)]
      show "findPrecedingToken_find K p c = Inr (precedingIn p (tokensOf K c) prev)" .
    qed simp
    also have "\<dots> = Inr (precedingIn p (tokensOf K n) None)"
      using False by (simp add: tokensOf_reachable reachableTokens_def lastOption_def)
    also have "precedingIn p (tokensOf K n) None = precedingIn p (tokensOf K n) prev"
      using g less.prems(2) by (intro precedingIn_any_prev) simp_all
    finally show ?thesis .
  qed
qed

lemma findPrecedingToken_flat:
  assumes "searchableFile K sourceFile"
  shows "findPrecedingToken K p sourceFile = Inr (precedingIn p (tokensOf K sourceFile) None)"
proof -
  from assms have s: "kind sourceFile = SourceFile K" "\<not> isToken K sourceFile"
    "\<forall>c \<in> set (getChildren sourceFile). hasTokensDefined K c"
    "\<forall>c \<in> set (filter (tokenBearing K) (getChildren sourceFile)). tokensTight K c"
    by (simp_all add: searchableFile_def)
  have "findPrecedingToken K p sourceFile = findPrecedingToken_loop K p sourceFile 0"
    using s(2) by (simp add: findPrecedingToken_def findPrecedingToken_find_other)
  also have "\<dots> = Inr (precedingIn p (reachableTokens K (drop 0 (getChildren sourceFile)))
                  (lastOption (reachableTokens K (take 0 (getChildren sourceFile)))))"
  proof (rule findPrecedingToken_loop_char[OF s(3) s(4)])
    fix c prev assume c: "c \<in> set (getChildren sourceFile)" "tokenBearing K c" "getStart c < p"
      "p < getEnd c"
    with s(4) have "tokensTight K c" by simp
    from findPrecedingToken_find_char[OF this c(3,4)]
    show "findPrecedingToken_find K p c = Inr (precedingIn p (tokensOf K c) prev)" .
  next
    show "0 \<le> getChildCount sourceFile" by simp
  next
    show "kind sourceFile = SourceFile K \<or>
           (\<exists>j. 0 \<le> j \<and> j < getChildCount sourceFile \<and> tokenBearing K (getChildAt sourceFile j) \<and>
                p < getEnd (getChildAt sourceFile j))" using s(1) by simp
  qed
  also have "\<dots> = Inr (precedingIn p (tokensOf K sourceFile) None)"
    using s(2) by (simp add: tokensOf_reachable reachableTokens_def lastOption_def)
  finally show ?thesis .
qed

lemma precedingIn_inside:
  "tokenChain ts \<Longrightarrow> t \<in> set ts \<Longrightarrow> getStart t < p \<Longrightarrow> p < getEnd t \<Longrightarrow>
   precedingIn p ts prev = Some t"
proof (induction ts arbitrary: prev)
  case Nil
  then show ?case by simp
next
  case (Cons a ts)
  show ?case
  proof (cases "t = a")
    case True
    with Cons.prems show ?thesis by simp
  next
    case False
    with Cons.prems(2) have tin: "t \<in> set ts" by simp
    from tokenChain_later[OF Cons.prems(1) tin] Cons.prems(3) have "\<not> p < getEnd a" by simp
    with Cons.IH[OF tokenChain_tl[OF Cons.prems(1)] tin Cons.prems(3,4)] show ?thesis by simp
  qed
qed

lemma precedingIn_boundary:
  "tokenChain ts \<Longrightarrow> \<forall>t \<in> set ts. \<not> (getStart t < p \<and> p < getEnd t) \<Longrightarrow>
   (precedingIn p ts prev = prev \<and> (\<forall>u \<in> set ts. p < getEnd u)) \<or>
   (\<exists>t \<in> set ts. precedingIn p ts prev = Some t \<and> getEnd t \<le> p \<and>
      (\<forall>u \<in> set ts. getEnd u \<le> p \<longrightarrow> u = t \<or> getEnd u < getEnd t))"
proof (induction ts arbitrary: prev)
  case Nil
  then show ?case by simp
next
  case (Cons a ts)
  note chain = Cons.prems(1)
  have later: "getEnd a \<le> getStart u \<and> getStart u < getEnd u" if "u \<in> set ts" for u
    using tokenChain_later[OF chain that] tokenChain_widths[OF tokenChain_tl[OF chain] that]
    by simp
  show ?case
  proof (cases "p < getEnd a")
    case True
    with Cons.prems(2) have "getStart a \<ge> p" by auto
    with True have r: "precedingIn p (a # ts) prev = prev" by simp
    have "\<forall>u \<in> set (a # ts). p < getEnd u"
    proof
      fix u assume "u \<in> set (a # ts)"
      then show "p < getEnd u"
      proof (cases "u = a")
        case True
        with \<open>p < getEnd a\<close> show ?thesis by simp
      next
        case False
        with \<open>u \<in> set (a # ts)\<close> have "u \<in> set ts" by simp
        from later[OF this] tokenChain_hd[OF chain] \<open>getStart a \<ge> p\<close> show ?thesis by simp
      qed
    qed
    with r show ?thesis by blast
  next
    case False
    then have r: "precedingIn p (a # ts) prev = precedingIn p ts (Some a)" by simp
    have tl: "\<forall>t \<in> set ts. \<not> (getStart t < p \<and> p < getEnd t)" using Cons.prems(2) by simp
    from Cons.IH[OF tokenChain_tl[OF chain] tl, of "Some a"] show ?thesis
    proof
      assume h: "precedingIn p ts (Some a) = Some a \<and> (\<forall>u \<in> set ts. p < getEnd u)"
      have "\<forall>u \<in> set (a # ts). getEnd u \<le> p \<longrightarrow> u = a \<or> getEnd u < getEnd a"
        using h by auto
      with h r False show ?thesis by auto
    next
      assume "\<exists>t \<in> set ts. precedingIn p ts (Some a) = Some t \<and> getEnd t \<le> p \<and>
        (\<forall>u \<in> set ts. getEnd u \<le> p \<longrightarrow> u = t \<or> getEnd u < getEnd t)"
      then obtain t where t: "t \<in> set ts" "precedingIn p ts (Some a) = Some t" "getEnd t \<le> p"
        "\<forall>u \<in> set ts. getEnd u \<le> p \<longrightarrow> u = t \<or> getEnd u < getEnd t" by blast
      from later[OF t(1)] have "getEnd a < getEnd t" by simp
      with t(4) have "\<forall>u \<in> set (a # ts). getEnd u \<le> p \<longrightarrow> u = t \<or> getEnd u < getEnd t"
        by auto
      with t r show ?thesis by auto
    qed
  qed
qed

text \<open>
  Claim C1, as the code has it. On a source file whose spans follow its tokens the
  search never fails. When the offset lies strictly inside the text of a reachable
  token, \<open>start < p < end\<close>, it returns that token, whose end is after the offset.
  Otherwise it returns the reachable token with the greatest end among those that end
  at or before the offset, which is unique, and absent exactly when no reachable token
  ends at or before the offset.
\<close>

theorem findPrecedingToken_inside_or_before:
  assumes "searchableFile K sourceFile"
  shows "\<exists>r. findPrecedingToken K p sourceFile = Inr r \<and>
           (\<forall>t \<in> set (tokensOf K sourceFile). getStart t < p \<and> p < getEnd t \<longrightarrow> r = Some t) \<and>
           ((\<forall>t \<in> set (tokensOf K sourceFile). \<not> (getStart t < p \<and> p < getEnd t)) \<longrightarrow>
              (case r of
                 None \<Rightarrow> \<forall>t \<in> set (tokensOf K sourceFile). p < getEnd t
               | Some t \<Rightarrow> t \<in> set (tokensOf K sourceFile) \<and> getEnd t \<le> p \<and>
                   (\<forall>u \<in> set (tokensOf K sourceFile).
                      getEnd u \<le> p \<longrightarrow> u = t \<or> getEnd u < getEnd t)))"
proof -
  let ?ts = "tokensOf K sourceFile"
  let ?r = "precedingIn p ?ts None"
  from assms have s: "\<not> isToken K sourceFile"
    "startSorted (filter (tokenBearing K) (getChildren sourceFile))"
    "\<forall>c \<in> set (filter (tokenBearing K) (getChildren sourceFile)). tokensTight K c"
    by (simp_all add: searchableFile_def)
  have chain: "tokenChain ?ts"
    using reachableTokens_chain[OF s(3,2)] s(1) by (simp add: tokensOf_reachable)
  have eq: "findPrecedingToken K p sourceFile = Inr ?r"
    using assms by (rule findPrecedingToken_flat)
  have a: "\<forall>t \<in> set ?ts. getStart t < p \<and> p < getEnd t \<longrightarrow> ?r = Some t"
    using precedingIn_inside[OF chain] by blast
  have b: "case ?r of
             None \<Rightarrow> \<forall>t \<in> set ?ts. p < getEnd t
           | Some t \<Rightarrow> t \<in> set ?ts \<and> getEnd t \<le> p \<and>
               (\<forall>u \<in> set ?ts. getEnd u \<le> p \<longrightarrow> u = t \<or> getEnd u < getEnd t)"
    if "\<forall>t \<in> set ?ts. \<not> (getStart t < p \<and> p < getEnd t)"
    using precedingIn_boundary[OF chain that, of None] by (auto split: option.splits)
  from eq a b show ?thesis by blast
qed


text \<open>
  The theorem at the sample document. Offset \<open>8\<close>, immediately after the opening
  parenthesis, lies strictly inside no token, and the result is the parenthesis; offset
  \<open>1\<close> lies strictly inside \<^verbatim>\<open>foo\<close>, and the result is that token.
\<close>

theorem findPrecedingToken_inside_or_before_witness:
  "searchableFile sampleKinds sampleFile \<and>
   tokensOf sampleKinds sampleFile = [tFoo, tDot, tBar, tOpen, tOne, tComma, tTwo, tClose] \<and>
   findPrecedingToken sampleKinds 8 sampleFile = Inr (Some tOpen) \<and>
   findPrecedingToken sampleKinds 1 sampleFile = Inr (Some tFoo)"
proof -
  let ?ts = "tokensOf sampleKinds sampleFile"
  have h: "searchableFile sampleKinds sampleFile"
    by (simp add: searchableFile_def sample_defs isToken_def tokenBearing_def)
      (auto simp: hasTokensDefined_def)
  have toks: "?ts = [tFoo, tDot, tBar, tOpen, tOne, tComma, tTwo, tClose]"
    by (simp add: sample_defs isToken_def tokenBearing_def)
  from findPrecedingToken_inside_or_before[OF h, of 8]
  obtain r where r: "findPrecedingToken sampleKinds 8 sampleFile = Inr r"
    and b: "(\<forall>t \<in> set ?ts. \<not> (getStart t < 8 \<and> 8 < getEnd t)) \<longrightarrow>
              (case r of
                 None \<Rightarrow> \<forall>t \<in> set ?ts. 8 < getEnd t
               | Some t \<Rightarrow> t \<in> set ?ts \<and> getEnd t \<le> 8 \<and>
                   (\<forall>u \<in> set ?ts. getEnd u \<le> 8 \<longrightarrow> u = t \<or> getEnd u < getEnd t))"
    by blast
  have "\<forall>t \<in> set ?ts. \<not> (getStart t < 8 \<and> 8 < getEnd t)"
    unfolding toks by (simp add: sample_defs)
  with b have c: "case r of
                 None \<Rightarrow> \<forall>t \<in> set ?ts. 8 < getEnd t
               | Some t \<Rightarrow> t \<in> set ?ts \<and> getEnd t \<le> 8 \<and>
                   (\<forall>u \<in> set ?ts. getEnd u \<le> 8 \<longrightarrow> u = t \<or> getEnd u < getEnd t)"
    by blast
  have open_in: "tOpen \<in> set ?ts" unfolding toks by simp
  have open_end: "getEnd tOpen = 8" by (simp add: sample_defs)
  have "r = Some tOpen"
  proof (cases r)
    case None
    with c open_in have "8 < getEnd tOpen" by simp
    with open_end show ?thesis by simp
  next
    case (Some t)
    with c have "getEnd t \<le> 8"
      "\<forall>u \<in> set ?ts. getEnd u \<le> 8 \<longrightarrow> u = t \<or> getEnd u < getEnd t" by simp_all
    with open_in open_end have "tOpen = t" by fastforce
    with Some show ?thesis by simp
  qed
  with r have at8: "findPrecedingToken sampleKinds 8 sampleFile = Inr (Some tOpen)" by simp
  from findPrecedingToken_inside_or_before[OF h, of 1]
  obtain r1 where r1: "findPrecedingToken sampleKinds 1 sampleFile = Inr r1"
    and a: "\<forall>t \<in> set ?ts. getStart t < 1 \<and> 1 < getEnd t \<longrightarrow> r1 = Some t"
    by blast
  have "tFoo \<in> set ?ts" unfolding toks by simp
  moreover have "getStart tFoo < 1 \<and> 1 < getEnd tFoo" by (simp add: sample_defs)
  ultimately have "r1 = Some tFoo" using a by blast
  with r1 have at1: "findPrecedingToken sampleKinds 1 sampleFile = Inr (Some tFoo)" by simp
  from h toks at8 at1 show ?thesis by blast
qed

text \<open>
  Claim C1 as stated fails at an offset strictly inside a token: at offset \<open>1\<close> of the
  sample document the search returns \<^verbatim>\<open>foo\<close>, which ends at \<open>3\<close>, after the offset,
  although no token ends at or before offset \<open>1\<close>.
\<close>

theorem findPrecedingToken_inside_counterexample:
  "wellFormed sampleKinds sampleFile \<and> fullyCovered sampleKinds sampleFile \<and>
   findPrecedingToken sampleKinds 1 sampleFile = Inr (Some tFoo) \<and> 1 < getEnd tFoo \<and>
   list_all (\<lambda>t. \<not> getEnd t \<le> 1) (filter (isToken sampleKinds) (nodes sampleFile))"
  by (simp add: findPrecedingToken_def findPrecedingToken_find.simps
      findPrecedingToken_loop.simps isToken_def sample_defs)

end
